theory Spec2Isabelle
  imports Main "HOL-Library.Sublist"
begin

section \<open>Python strings\<close>

text \<open>
  The program works on Python \<open>str\<close> values. A \<^typ>\<open>char\<close> stands for one code point;
  the model covers texts whose code points are below 256. The patterns of the program
  name ASCII characters only, \<open>.\<close> excludes the line feed alone, and \<open>\s\<close>,
  \<open>str.strip\<close> and \<open>str.lower\<close> are written out for that range.
\<close>

definition nl :: char where
  "nl = CHR 0x0A"

definition py_isspace :: "char \<Rightarrow> bool" where
  "py_isspace c = ((of_char c :: nat) \<in> {9, 10, 11, 12, 13, 28, 29, 30, 31, 32, 133, 160})"

definition py_lstrip :: "string \<Rightarrow> string" where
  "py_lstrip s = dropWhile py_isspace s"

definition py_rstrip :: "string \<Rightarrow> string" where
  "py_rstrip s = rev (dropWhile py_isspace (rev s))"

definition py_strip :: "string \<Rightarrow> string" where
  "py_strip s = py_rstrip (py_lstrip s)"

text \<open>\<open>s.split(sep)\<close> for a separator of one character: never an empty list.\<close>

fun py_split :: "char \<Rightarrow> string \<Rightarrow> string list" where
  "py_split sep [] = [[]]"
| "py_split sep (c # cs) =
     (if c = sep then [] # py_split sep cs
      else (c # hd (py_split sep cs)) # tl (py_split sep cs))"

text \<open>
  \<open>s.replace(old, new)\<close>: every occurrence of \<open>old\<close>, left to right, without overlap.
  With an empty \<open>old\<close> Python puts \<open>new\<close> before every character and at the end.
\<close>

function py_replace :: "string \<Rightarrow> string \<Rightarrow> string \<Rightarrow> string" where
  "py_replace old new s =
     (if old = [] then new @ concat (map (\<lambda>c. c # new) s)
      else if s = [] then []
      else if prefix old s then new @ py_replace old new (drop (length old) s)
      else hd s # py_replace old new (tl s))"
  by pat_completeness auto
termination
  by (relation "measure (\<lambda>(old, new, s). length s)") auto

declare py_replace.simps [simp del]

datatype py_error = ValueError | AttributeError | TypeError | KeyError | OSError | YAMLError

section \<open>Reference Rewriter: \<open>replace_wiki_links\<close>\<close>

text \<open>
  \<open>.+?\<close> followed by the rest of a pattern: the shortest non-empty run of characters
  other than the line feed after which \<open>follows\<close> holds of the remaining text. The
  result is the run and the remaining text.
\<close>

fun dots_lazy :: "(string \<Rightarrow> bool) \<Rightarrow> string \<Rightarrow> (string \<times> string) option" where
  "dots_lazy follows [] = None"
| "dots_lazy follows (c # cs) =
     (if c = nl then None
      else if follows cs then Some ([c], cs)
      else map_option (\<lambda>(t, r). (c # t, r)) (dots_lazy follows cs))"

text \<open>\<open>\]\](?!\()\<close>: two closing brackets not followed by an opening parenthesis.\<close>

definition closes_link :: "string \<Rightarrow> bool" where
  "closes_link s = (prefix '']]'' s \<and> \<not> prefix '']]('' s)"

text \<open>
  \<open>(?<!!)\[\[(.+?)\]\](?!\()\<close> tried at the head of \<open>s\<close>, where \<open>prev\<close> is the character
  before it (\<open>None\<close> at the start of the text): group 1 and the text after the match.
\<close>

definition match_wiki_link :: "char option \<Rightarrow> string \<Rightarrow> (string \<times> string) option" where
  "match_wiki_link prev s =
     (if prev = Some CHR ''!'' then None
      else if prefix ''[['' s then
        map_option (\<lambda>(t, r). (t, drop 2 r)) (dots_lazy closes_link (drop 2 s))
      else None)"

text \<open>
  The callback \<open>replace_wiki_link\<close> on group 1 of a match. \<open>zettlr\<close> is the truth value of
  \<open>args.zettlr\<close>; \<open>title2id\<close> maps a title to its identifier as the f-string prints it.
  Unpacking \<open>link_text.split("|")\<close> into two names raises \<open>ValueError\<close> unless the
  split has exactly two parts. The counter \<open>count\<close>, which is only printed, is left out.
\<close>

definition replace_wiki_link :: "bool \<Rightarrow> (string \<rightharpoonup> string) \<Rightarrow> string \<Rightarrow> py_error + string" where
  "replace_wiki_link zettlr title2id link_text =
     (if CHR ''|'' \<in> set link_text then
        (case py_split CHR ''|'' link_text of
           [link_title, link_alias] \<Rightarrow>
             (case title2id link_title of
                None \<Rightarrow> Inr (''[['' @ link_text @ '']]'')
              | Some ident \<Rightarrow>
                  if zettlr then Inr (''['' @ py_strip link_alias @ '']([['' @ ident @ '']])'')
                  else Inr (''[['' @ ident @ ''|'' @ py_strip link_alias @ '']]''))
         | _ \<Rightarrow> Inl ValueError)
      else
        (case title2id link_text of
           None \<Rightarrow> Inr (''[['' @ link_text @ '']]'')
         | Some ident \<Rightarrow>
             if zettlr then Inr (''['' @ link_text @ '']([['' @ ident @ '']])'')
             else Inr (''[['' @ ident @ ''|'' @ link_text @ '']]'')))"

lemma dots_lazy_shorter:
  "dots_lazy follows s = Some (t, r) \<Longrightarrow> length r < length s"
  by (induction s arbitrary: t) (auto split: if_splits)

lemma match_wiki_link_shorter:
  "match_wiki_link prev s = Some (t, r) \<Longrightarrow> length r < length s"
  by (auto simp: match_wiki_link_def split: if_splits dest!: dots_lazy_shorter)

text \<open>
  \<open>re.sub(pattern, replace_wiki_link, content)\<close>: the matches are found left to right
  in the original text, each search starting where the last match ended; the text
  between matches is copied, and the first exception of the callback ends the call.
\<close>

function sub_wiki_links ::
  "bool \<Rightarrow> (string \<rightharpoonup> string) \<Rightarrow> char option \<Rightarrow> string \<Rightarrow> py_error + string" where
  "sub_wiki_links z m prev [] = Inr []"
| "sub_wiki_links z m prev (c # cs) =
     (case match_wiki_link prev (c # cs) of
        Some (t, rest) \<Rightarrow>
          (case replace_wiki_link z m t of
             Inl e \<Rightarrow> Inl e
           | Inr new \<Rightarrow>
               (case sub_wiki_links z m (Some CHR '']'') rest of
                  Inl e \<Rightarrow> Inl e
                | Inr out \<Rightarrow> Inr (new @ out)))
      | None \<Rightarrow>
          (case sub_wiki_links z m (Some c) cs of
             Inl e \<Rightarrow> Inl e
           | Inr out \<Rightarrow> Inr (c # out)))"
  by pat_completeness auto
termination
  by (relation "measure (\<lambda>(z, m, prev, s). length s)")
     (auto dest: match_wiki_link_shorter)

text \<open>
  \<open>!\[\[(.+?\.jpe?g|.+?\.png)\]\]\<close> tried at the head of \<open>s\<close>: group 1 and the text after
  the match. The first alternative is tried at every length before the second one.
\<close>

definition follows_jpg :: "string \<Rightarrow> bool" where
  "follows_jpg s = (prefix ''.jpeg]]'' s \<or> prefix ''.jpg]]'' s)"

definition follows_png :: "string \<Rightarrow> bool" where
  "follows_png s = prefix ''.png]]'' s"

definition match_image :: "string \<Rightarrow> (string \<times> string) option" where
  "match_image s =
     (if prefix ''![['' s then
        (case dots_lazy follows_jpg (drop 3 s) of
           Some (t, r) \<Rightarrow>
             if prefix ''.jpeg]]'' r then Some (t @ ''.jpeg'', drop 7 r)
             else Some (t @ ''.jpg'', drop 6 r)
         | None \<Rightarrow>
             (case dots_lazy follows_png (drop 3 s) of
                Some (t, r) \<Rightarrow> Some (t @ ''.png'', drop 6 r)
              | None \<Rightarrow> None))
      else None)"

lemma match_image_shorter:
  "match_image s = Some (g, r) \<Longrightarrow> length r < length s"
  by (auto simp: match_image_def split: if_splits option.splits dest!: dots_lazy_shorter)

text \<open>\<open>re.finditer\<close>: group 1 of every match, left to right.\<close>

function image_matches :: "string \<Rightarrow> string list" where
  "image_matches [] = []"
| "image_matches (c # cs) =
     (case match_image (c # cs) of
        Some (g, rest) \<Rightarrow> g # image_matches rest
      | None \<Rightarrow> image_matches cs)"
  by pat_completeness auto
termination
  by (relation "measure length") (auto dest: match_image_shorter)

text \<open>
  The loop over the matches: each one replaces every occurrence of its whole text in
  the current content.
\<close>

definition replace_image :: "string \<Rightarrow> string \<Rightarrow> string" where
  "replace_image content image_link =
     py_replace (''![['' @ image_link @ '']]'') (''![]('' @ image_link @ '')'') content"

text \<open>
  \<open>replace_wiki_links\<close> on the content of the file it reads and writes back.
\<close>

definition image_pass :: "string \<Rightarrow> string" where
  "image_pass content = foldl replace_image content (image_matches content)"

definition replace_wiki_links :: "bool \<Rightarrow> (string \<rightharpoonup> string) \<Rightarrow> string \<Rightarrow> py_error + string" where
  "replace_wiki_links z title2id content =
     (case sub_wiki_links z title2id None content of
        Inl e \<Rightarrow> Inl e
      | Inr content' \<Rightarrow> Inr (image_pass content'))"

text \<open>
  A body as a document, to state properties of bodies with several references and embeds.
  An entry is a text and the item that follows it: a reference \<open>[[L]]\<close> or an embed
  \<open>![[X]]\<close>; a document is a list of entries and a final text.
\<close>

datatype item = Link string | Embed string

fun source :: "item \<Rightarrow> string" where
  "source (Link L) = ''[['' @ L @ '']]''"
| "source (Embed X) = ''![['' @ X @ '']]''"

fun render :: "(string \<times> item) list \<Rightarrow> string \<Rightarrow> string" where
  "render [] final = final"
| "render ((t, it) # es) final = t @ source it @ render es final"

text \<open>
  \<open>plain t\<close>: the text has no \<open>[[\<close>. \<open>link_text L\<close>: a link text that is not empty, without
  bracket or line feed, with at most one pipe. \<open>embed_name X\<close>: a name without bracket or
  line feed. \<open>jpg_name\<close> and \<open>png_name\<close>: the name ends with the extension in lower case,
  after at least one character, as the image pattern asks.
\<close>

fun plain :: "string \<Rightarrow> bool" where
  "plain (c # d # s) = ((c \<noteq> CHR ''['' \<or> d \<noteq> CHR ''['') \<and> plain (d # s))"
| "plain s = True"

definition ends_with :: "char \<Rightarrow> string \<Rightarrow> bool" where
  "ends_with c t = (t \<noteq> [] \<and> last t = c)"

definition link_text :: "string \<Rightarrow> bool" where
  "link_text L =
     (L \<noteq> [] \<and> nl \<notin> set L \<and> CHR ''['' \<notin> set L \<and> CHR '']'' \<notin> set L
      \<and> length (py_split CHR ''|'' L) \<le> 2)"

definition embed_name :: "string \<Rightarrow> bool" where
  "embed_name X = (nl \<notin> set X \<and> CHR ''['' \<notin> set X \<and> CHR '']'' \<notin> set X)"

definition has_ext :: "string \<Rightarrow> string \<Rightarrow> bool" where
  "has_ext e X = (length e < length X \<and> drop (length X - length e) X = e)"

definition jpg_name :: "string \<Rightarrow> bool" where
  "jpg_name X = (has_ext ''.jpg'' X \<or> has_ext ''.jpeg'' X)"

definition png_name :: "string \<Rightarrow> bool" where
  "png_name X = has_ext ''.png'' X"

text \<open>
  \<open>on_line P s\<close>: \<open>P\<close> holds of \<open>s\<close> or of what is left of \<open>s\<close> after some characters of its
  first line. \<open>has_embed s\<close>: \<open>![[\<close> occurs in \<open>s\<close>. \<open>title_of L\<close>: the link text before its
  first pipe. \<open>next_text\<close>: the text that follows an item.
\<close>

fun on_line :: "(string \<Rightarrow> bool) \<Rightarrow> string \<Rightarrow> bool" where
  "on_line P [] = P []"
| "on_line P (c # s) = (P (c # s) \<or> (c \<noteq> nl \<and> on_line P s))"

fun has_embed :: "string \<Rightarrow> bool" where
  "has_embed [] = False"
| "has_embed (c # s) = (prefix ''![['' (c # s) \<or> has_embed s)"

definition title_of :: "string \<Rightarrow> string" where
  "title_of L = hd (py_split CHR ''|'' L)"

fun next_text :: "(string \<times> item) list \<Rightarrow> string \<Rightarrow> string" where
  "next_text [] final = final"
| "next_text ((t, it) # es) final = t"

text \<open>
  \<open>linked\<close>: the document with the callback's result in place of every reference, embeds
  kept. \<open>rewritten\<close>: the same with \<open>![](X)\<close> in place of every embed whose name is an image
  name.
\<close>

fun linked_item :: "bool \<Rightarrow> (string \<rightharpoonup> string) \<Rightarrow> item \<Rightarrow> string" where
  "linked_item z m (Link L) = (case replace_wiki_link z m L of Inr R \<Rightarrow> R | Inl e \<Rightarrow> [])"
| "linked_item z m (Embed X) = ''![['' @ X @ '']]''"

fun linked :: "bool \<Rightarrow> (string \<rightharpoonup> string) \<Rightarrow> (string \<times> item) list \<Rightarrow> string \<Rightarrow> string" where
  "linked z m [] final = final"
| "linked z m ((t, it) # es) final = t @ linked_item z m it @ linked z m es final"

fun rewritten_item :: "bool \<Rightarrow> (string \<rightharpoonup> string) \<Rightarrow> item \<Rightarrow> string" where
  "rewritten_item z m (Link L) = (case replace_wiki_link z m L of Inr R \<Rightarrow> R | Inl e \<Rightarrow> [])"
| "rewritten_item z m (Embed X) =
     (if jpg_name X \<or> png_name X then ''![]('' @ X @ '')'' else ''![['' @ X @ '']]'')"

fun rewritten :: "bool \<Rightarrow> (string \<rightharpoonup> string) \<Rightarrow> (string \<times> item) list \<Rightarrow> string \<Rightarrow> string" where
  "rewritten z m [] final = final"
| "rewritten z m ((t, it) # es) final = t @ rewritten_item z m it @ rewritten z m es final"

text \<open>
  A well-formed document. Every text is plain. Before a reference the text does not end
  with \<open>[\<close> or \<open>!\<close>; the link text is a \<open>link_text\<close>; the text after the reference does not
  start with \<open>(\<close>; the identifier of its title, if it has one, does not contain \<open>![[\<close>. The
  name of an embed is an \<open>embed_name\<close>; unless it is a jpg or jpeg name, no \<open>.jpg]]\<close> or
  \<open>.jpeg]]\<close> follows the embed on its line once the references are replaced, and unless it
  is an image name no \<open>.png]]\<close> does either.
\<close>

fun well_formed :: "bool \<Rightarrow> (string \<rightharpoonup> string) \<Rightarrow> (string \<times> item) list \<Rightarrow> string \<Rightarrow> bool" where
  "well_formed z m [] final = plain final"
| "well_formed z m ((t, Link L) # es) final =
     (plain t \<and> \<not> ends_with CHR ''['' t \<and> \<not> ends_with CHR ''!'' t
      \<and> link_text L \<and> \<not> prefix ''('' (next_text es final)
      \<and> (case m (title_of L) of None \<Rightarrow> True | Some i \<Rightarrow> \<not> has_embed i)
      \<and> well_formed z m es final)"
| "well_formed z m ((t, Embed X) # es) final =
     (plain t \<and> embed_name X
      \<and> (jpg_name X \<or> \<not> on_line follows_jpg (linked z m es final))
      \<and> (jpg_name X \<or> png_name X \<or> \<not> on_line follows_png (linked z m es final))
      \<and> well_formed z m es final)"

text \<open>
  \<open>stable_ids m es\<close>: the identifier of every title of the document that is a key of the
  map is not empty, is not itself a key, and has no bracket, pipe or line feed.
\<close>

fun stable_ids :: "(string \<rightharpoonup> string) \<Rightarrow> (string \<times> item) list \<Rightarrow> bool" where
  "stable_ids m [] = True"
| "stable_ids m ((t, Link L) # es) =
     ((case m (title_of L) of
         None \<Rightarrow> True
       | Some i \<Rightarrow> i \<noteq> [] \<and> m i = None \<and> nl \<notin> set i \<and> CHR ''['' \<notin> set i
                   \<and> CHR '']'' \<notin> set i \<and> CHR ''|'' \<notin> set i)
      \<and> stable_ids m es)"
| "stable_ids m ((t, Embed X) # es) = stable_ids m es"

text \<open>
  Notions used in the proofs. \<open>no_link t Y\<close> and \<open>no_embed t Y\<close>: no \<open>[[\<close>, no \<open>![[\<close> starts
  in \<open>t\<close> when \<open>Y\<close> follows it. \<open>names\<close>: the image names of the embeds of a document, in
  order. \<open>conv S\<close>: the document after the loop has replaced the embeds whose name is in
  \<open>S\<close>. \<open>converts s s'\<close>: \<open>s'\<close> is \<open>s\<close> with some embeds replaced.
\<close>

fun no_link :: "string \<Rightarrow> string \<Rightarrow> bool" where
  "no_link [] Y = True"
| "no_link (c # t) Y = (\<not> prefix ''[['' (c # t @ Y) \<and> no_link t Y)"

fun no_embed :: "string \<Rightarrow> string \<Rightarrow> bool" where
  "no_embed [] Y = True"
| "no_embed (c # t) Y = (\<not> prefix ''![['' (c # t @ Y) \<and> no_embed t Y)"

fun names :: "(string \<times> item) list \<Rightarrow> string list" where
  "names [] = []"
| "names ((t, Link L) # es) = names es"
| "names ((t, Embed X) # es) = (if jpg_name X \<or> png_name X then X # names es else names es)"

fun conv_item :: "string set \<Rightarrow> bool \<Rightarrow> (string \<rightharpoonup> string) \<Rightarrow> item \<Rightarrow> string" where
  "conv_item S z m (Link L) = linked_item z m (Link L)"
| "conv_item S z m (Embed X) = (if X \<in> S then ''![]('' @ X @ '')'' else ''![['' @ X @ '']]'')"

fun conv :: "string set \<Rightarrow> bool \<Rightarrow> (string \<rightharpoonup> string) \<Rightarrow> (string \<times> item) list \<Rightarrow> string \<Rightarrow> string" where
  "conv S z m [] final = final"
| "conv S z m ((t, it) # es) final = t @ conv_item S z m it @ conv S z m es final"

inductive converts :: "string \<Rightarrow> string \<Rightarrow> bool" where
  converts_Nil: "converts [] []"
| converts_Cons: "converts s1 s2 \<Longrightarrow> converts (c # s1) (c # s2)"
| converts_Embed: "converts s1 s2 \<Longrightarrow> nl \<notin> set X \<Longrightarrow> CHR '']'' \<notin> set X \<Longrightarrow>
     converts (''![['' @ X @ '']]'' @ s1) (''![]('' @ X @ '')'' @ s2)"


section \<open>Properties of the Reference Rewriter\<close>

lemma py_replace_Nil [simp]: "old \<noteq> [] \<Longrightarrow> py_replace old new [] = []"
  by (simp add: py_replace.simps)

lemma py_replace_hit:
  "old \<noteq> [] \<Longrightarrow> prefix old s \<Longrightarrow>
   py_replace old new s = new @ py_replace old new (drop (length old) s)"
  by (subst py_replace.simps) auto

lemma py_replace_miss:
  "old \<noteq> [] \<Longrightarrow> \<not> prefix old (c # s) \<Longrightarrow>
   py_replace old new (c # s) = c # py_replace old new s"
  by (subst py_replace.simps) auto

lemma dots_lazy_Some:
  "t \<noteq> [] \<Longrightarrow> nl \<notin> set t \<Longrightarrow> follows r
   \<Longrightarrow> (\<And>u v. t = u @ v \<Longrightarrow> u \<noteq> [] \<Longrightarrow> v \<noteq> [] \<Longrightarrow> \<not> follows (v @ r))
   \<Longrightarrow> dots_lazy follows (t @ r) = Some (t, r)"
proof (induction t)
  case Nil
  then show ?case by simp
next
  case (Cons c t)
  show ?case
  proof (cases "t = []")
    case True
    then show ?thesis using Cons.prems by simp
  next
    case False
    have nf: "\<not> follows (t @ r)" using Cons.prems(4)[of "[c]" t] False by simp
    have "dots_lazy follows (t @ r) = Some (t, r)"
    proof (rule Cons.IH)
      fix u v assume "t = u @ v" "u \<noteq> []" "v \<noteq> []"
      then show "\<not> follows (v @ r)" using Cons.prems(4)[of "c # u" v] by simp
    qed (use False Cons.prems in auto)
    then show ?thesis using nf Cons.prems(2) by auto
  qed
qed

lemma closes_link_hd: "closes_link s \<Longrightarrow> s \<noteq> [] \<and> hd s = CHR '']''"
  by (auto simp: closes_link_def prefix_def)

lemma match_wiki_link_exact:
  assumes "prev \<noteq> Some CHR ''!''" "t \<noteq> []" "nl \<notin> set t" "CHR '']'' \<notin> set t"
    "\<not> prefix ''('' post"
  shows "match_wiki_link prev (''[['' @ t @ '']]'' @ post) = Some (t, post)"
proof -
  have c: "closes_link ('']]'' @ post)"
    using assms(5) by (auto simp: closes_link_def prefix_def)
  have "dots_lazy closes_link (t @ '']]'' @ post) = Some (t, '']]'' @ post)"
  proof (rule dots_lazy_Some[where follows = closes_link and r = "'']]'' @ post", OF assms(2,3) c])
    fix u v assume "t = u @ v" "u \<noteq> []" "v \<noteq> []"
    then have "hd (v @ '']]'' @ post) \<noteq> CHR '']''" using assms(4) by (cases v) auto
    then show "\<not> closes_link (v @ '']]'' @ post)" using closes_link_hd by blast
  qed
  then show ?thesis using assms(1) by (simp add: match_wiki_link_def)
qed

lemma py_split_no_sep: "sep \<notin> set s \<Longrightarrow> py_split sep s = [s]"
  by (induction s) auto

lemma py_split_at_sep:
  "sep \<notin> set a \<Longrightarrow> py_split sep (a @ sep # b) = a # py_split sep b"
  by (induction a) auto

lemma replace_wiki_link_plain:
  "CHR ''|'' \<notin> set T \<Longrightarrow>
   replace_wiki_link z m T =
     Inr (case m T of
            None \<Rightarrow> ''[['' @ T @ '']]''
          | Some i \<Rightarrow> if z then ''['' @ T @ '']([['' @ i @ '']])''
                      else ''[['' @ i @ ''|'' @ T @ '']]'')"
  by (simp add: replace_wiki_link_def split: option.splits)

lemma replace_wiki_link_aliased:
  "CHR ''|'' \<notin> set T \<Longrightarrow> CHR ''|'' \<notin> set A \<Longrightarrow>
   replace_wiki_link z m (T @ CHR ''|'' # A) =
     Inr (case m T of
            None \<Rightarrow> ''[['' @ T @ ''|'' @ A @ '']]''
          | Some i \<Rightarrow> if z then ''['' @ py_strip A @ '']([['' @ i @ '']])''
                      else ''[['' @ i @ ''|'' @ py_strip A @ '']]'')"
  by (simp add: replace_wiki_link_def py_split_at_sep py_split_no_sep split: option.splits)

lemma prefix_rb_split:
  assumes "prefix (x @ '']]'') (v @ w)" "CHR '']'' \<notin> set v"
  shows "prefix v x"
proof -
  from assms(1) have "prefix (x @ '']]'') v \<or> prefix v (x @ '']]'')"
    by (metis prefix_append prefix_order.dual_order.refl prefix_same_cases prefixI)
  moreover have "\<not> prefix (x @ '']]'') v"
    using assms(2) by (auto simp: prefix_def)
  ultimately have "prefix v (x @ '']]'')" by blast
  then show ?thesis using assms(2)
    by (auto simp: prefix_append prefix_Cons split: list.splits)
qed

lemma follows_jpg_D:
  "follows_jpg u \<Longrightarrow> prefix (''.jpg'' @ '']]'') u \<or> prefix (''.jpeg'' @ '']]'') u"
  by (auto simp: follows_jpg_def)

lemma follows_png_D:
  "follows_png u \<Longrightarrow> prefix (''.png'' @ '']]'') u"
  by (auto simp: follows_png_def)

lemma dot_in_tl:
  "x = v @ ''.'' @ ext @ zs \<Longrightarrow> v \<noteq> [] \<Longrightarrow> CHR ''.'' \<in> set (tl x)"
  by (cases v) simp_all

lemma not_follows_jpg_inside:
  assumes "v \<noteq> []" "CHR '']'' \<notin> set v" "ext \<in> {''jpg'', ''jpeg'', ''png''}"
  shows "\<not> follows_jpg (v @ ''.'' @ ext @ '']]'' @ rest)"
proof
  assume f: "follows_jpg (v @ ''.'' @ ext @ '']]'' @ rest)"
  have e: "v @ ''.'' @ ext @ '']]'' @ rest = (v @ ''.'' @ ext) @ '']]'' @ rest" by simp
  have nb: "CHR '']'' \<notin> set (v @ ''.'' @ ext)" using assms(2,3) by auto
  from follows_jpg_D[OF f] show False
  proof
    assume "prefix (''.jpg'' @ '']]'') (v @ ''.'' @ ext @ '']]'' @ rest)"
    then have "prefix (v @ ''.'' @ ext) ''.jpg''"
      unfolding e by (rule prefix_rb_split) (rule nb)
    then obtain zs where "''.jpg'' = v @ ''.'' @ ext @ zs" unfolding prefix_def by auto
    from dot_in_tl[OF this assms(1)] show False by simp
  next
    assume "prefix (''.jpeg'' @ '']]'') (v @ ''.'' @ ext @ '']]'' @ rest)"
    then have "prefix (v @ ''.'' @ ext) ''.jpeg''"
      unfolding e by (rule prefix_rb_split) (rule nb)
    then obtain zs where "''.jpeg'' = v @ ''.'' @ ext @ zs" unfolding prefix_def by auto
    from dot_in_tl[OF this assms(1)] show False by simp
  qed
qed

lemma not_follows_png_inside:
  assumes "v \<noteq> []" "CHR '']'' \<notin> set v" "ext \<in> {''jpg'', ''jpeg'', ''png''}"
  shows "\<not> follows_png (v @ ''.'' @ ext @ '']]'' @ rest)"
proof
  assume f: "follows_png (v @ ''.'' @ ext @ '']]'' @ rest)"
  have e: "v @ ''.'' @ ext @ '']]'' @ rest = (v @ ''.'' @ ext) @ '']]'' @ rest" by simp
  have nb: "CHR '']'' \<notin> set (v @ ''.'' @ ext)" using assms(2,3) by auto
  from follows_png_D[OF f] have "prefix (v @ ''.'' @ ext) ''.png''"
    unfolding e by (rule prefix_rb_split) (rule nb)
  then obtain zs where "''.png'' = v @ ''.'' @ ext @ zs" unfolding prefix_def by auto
  from dot_in_tl[OF this assms(1)] show False by simp
qed

lemma dots_lazy_skip:
  "nl \<notin> set t \<Longrightarrow> (\<And>u v. t = u @ v \<Longrightarrow> u \<noteq> [] \<Longrightarrow> \<not> follows (v @ r))
   \<Longrightarrow> dots_lazy follows (t @ r) = map_option (\<lambda>(t', r'). (t @ t', r')) (dots_lazy follows r)"
proof (induction t)
  case Nil
  then show ?case by (simp add: option.map_ident case_prod_unfold)
next
  case (Cons c t)
  have nf: "\<not> follows (t @ r)" using Cons.prems(2)[of "[c]" t] by simp
  have ih: "dots_lazy follows (t @ r) = map_option (\<lambda>(t', r'). (t @ t', r')) (dots_lazy follows r)"
  proof (rule Cons.IH)
    fix u v assume "t = u @ v" "u \<noteq> []"
    then show "\<not> follows (v @ r)" using Cons.prems(2)[of "c # u" v] by simp
  qed (use Cons.prems in auto)
  have "c \<noteq> nl" using Cons.prems(1) by auto
  then show ?case using nf
    by (simp add: ih option.map_comp comp_def case_prod_unfold)
qed

lemma match_image_None: "\<not> prefix ''![['' s \<Longrightarrow> match_image s = None"
  by (simp add: match_image_def)

lemma set_py_strip: "set (py_strip s) \<subseteq> set s"
proof -
  have "set (py_rstrip u) \<subseteq> set u" for u
    unfolding py_rstrip_def using set_dropWhileD[of _ py_isspace "rev u"] by auto
  moreover have "set (py_lstrip s) \<subseteq> set s"
    unfolding py_lstrip_def using set_dropWhileD by fastforce
  ultimately show ?thesis unfolding py_strip_def by blast
qed

lemma py_split_not_Nil: "py_split sep s \<noteq> []"
  by (induction s) auto

lemma py_split_single: "py_split sep s = [b] \<Longrightarrow> s = b \<and> sep \<notin> set b"
proof (induction s arbitrary: b)
  case Nil
  then show ?case by simp
next
  case (Cons c s)
  from Cons.prems have ne: "c \<noteq> sep" using py_split_not_Nil[of sep s] by (auto split: if_splits)
  with Cons.prems have "py_split sep s = [hd (py_split sep s)]" "b = c # hd (py_split sep s)"
    using py_split_not_Nil[of sep s] by (cases "py_split sep s"; auto)+
  with Cons.IH[of "hd (py_split sep s)"] ne show ?case by auto
qed

lemma py_split_two:
  "py_split sep s = [a, b] \<Longrightarrow> s = a @ sep # b \<and> sep \<notin> set a \<and> sep \<notin> set b"
proof (induction s arbitrary: a)
  case Nil
  then show ?case by simp
next
  case (Cons c s)
  show ?case
  proof (cases "c = sep")
    case True
    with Cons.prems have "a = []" "py_split sep s = [b]" by auto
    with py_split_single[of sep s b] True show ?thesis by auto
  next
    case False
    with Cons.prems have "py_split sep s = [hd (py_split sep s), b]" "a = c # hd (py_split sep s)"
      using py_split_not_Nil[of sep s] by (cases "py_split sep s"; auto)+
    with Cons.IH[of "hd (py_split sep s)"] False show ?thesis by auto
  qed
qed

lemma py_split_has_sep: "sep \<in> set s \<Longrightarrow> 2 \<le> length (py_split sep s)"
proof (rule ccontr)
  assume s: "sep \<in> set s" and "\<not> 2 \<le> length (py_split sep s)"
  then have "length (py_split sep s) < 2" by simp
  then obtain b where "py_split sep s = [b]"
    using py_split_not_Nil[of sep s]
    by (cases "py_split sep s"; cases "tl (py_split sep s)") auto
  from py_split_single[OF this] s show False by simp
qed

lemma ends_with_Cons: "ends_with c (d # e # s) = ends_with c (e # s)"
  by (simp add: ends_with_def)

lemma plain_no_link:
  "plain t \<Longrightarrow> (ends_with CHR ''['' t \<longrightarrow> \<not> prefix ''['' Y) \<Longrightarrow> no_link t Y"
proof (induction t rule: plain.induct)
  case (1 c d s)
  then show ?case by (auto simp: ends_with_Cons)
next
  case "2_1"
  then show ?case by simp
next
  case "2_2"
  then show ?case by (cases Y) (auto simp: ends_with_def)
qed

lemma plain_no_embed:
  "plain t \<Longrightarrow> (ends_with CHR ''['' t \<or> ends_with CHR ''!'' t \<longrightarrow> \<not> prefix ''['' Y)
   \<Longrightarrow> no_embed t Y"
proof (induction t rule: plain.induct)
  case (1 c d s)
  have "\<not> prefix ''![['' (c # d # s @ Y)"
    using "1.prems" by (cases s; cases Y) (auto simp: ends_with_def)
  then show ?case using 1 by (simp add: ends_with_Cons)
next
  case "2_1"
  then show ?case by simp
next
  case "2_2"
  then show ?case by (cases Y) (auto simp: ends_with_def)
qed

lemma no_link_no_bracket: "CHR ''['' \<notin> set a \<Longrightarrow> no_link a Y"
  by (induction a) auto

lemma no_embed_no_bracket:
  "CHR ''['' \<notin> set a \<Longrightarrow> \<not> prefix ''['' Y \<Longrightarrow> no_embed a Y"
proof (induction a)
  case Nil
  then show ?case by simp
next
  case (Cons c a)
  have "\<not> prefix ''![['' (c # a @ Y)"
    using Cons.prems by (cases a; cases Y) auto
  then show ?case using Cons by simp
qed

lemma no_embed_append:
  "no_embed a (b @ Y) \<Longrightarrow> no_embed b Y \<Longrightarrow> no_embed (a @ b) Y"
  by (induction a) auto

lemma no_link_append:
  "no_link a (b @ Y) \<Longrightarrow> no_link b Y \<Longrightarrow> no_link (a @ b) Y"
  by (induction a) auto

lemma no_embed_id:
  "\<not> has_embed i \<Longrightarrow> \<not> prefix ''['' Y \<Longrightarrow> no_embed i Y"
proof (induction i)
  case Nil
  then show ?case by simp
next
  case (Cons c i)
  have "\<not> prefix ''![['' (c # i @ Y)"
  proof
    assume p: "prefix ''![['' (c # i @ Y)"
    show False
    proof (cases i)
      case Nil
      then show ?thesis using p Cons.prems(2) by (cases Y) auto
    next
      case (Cons d i')
      then show ?thesis using p Cons.prems by (cases i'; cases Y) auto
    qed
  qed
  then show ?case using Cons by simp
qed

lemma sub_hop:
  "no_link t Y \<Longrightarrow>
   sub_wiki_links z m prev (t @ Y) =
     (case sub_wiki_links z m (if t = [] then prev else Some (last t)) Y of
        Inl e \<Rightarrow> Inl e | Inr out \<Rightarrow> Inr (t @ out))"
proof (induction t arbitrary: prev)
  case Nil
  then show ?case by (simp split: sum.splits)
next
  case (Cons c t)
  have "match_wiki_link prev (c # t @ Y) = None"
    using Cons.prems by (auto simp: match_wiki_link_def)
  then show ?case using Cons.IH[of "Some c"] Cons.prems by (auto split: sum.splits)
qed

lemma img_hop: "no_embed t Y \<Longrightarrow> image_matches (t @ Y) = image_matches Y"
  by (induction t) (simp_all add: match_image_None)

lemma rep_hop:
  assumes "prefix ''![['' old"
  shows "no_embed t Y \<Longrightarrow> py_replace old new (t @ Y) = t @ py_replace old new Y"
proof (induction t)
  case Nil
  then show ?case by simp
next
  case (Cons c t)
  have old: "old \<noteq> []" using assms by auto
  have "\<not> prefix ''![['' (c # t @ Y)" using Cons.prems by simp
  then have "\<not> prefix old (c # t @ Y)"
    using assms prefix_order.trans by blast
  then show ?case using Cons old by (simp add: py_replace_miss)
qed

lemma sub_embed:
  assumes "CHR ''['' \<notin> set X"
  shows "sub_wiki_links z m prev (''![['' @ X @ '']]'' @ Y) =
     (case sub_wiki_links z m (Some CHR '']'') Y of
        Inl e \<Rightarrow> Inl e | Inr out \<Rightarrow> Inr (''![['' @ X @ '']]'' @ out))"
proof -
  define a where "a = CHR ''['' # X @ '']]''"
  define s2 where "s2 = a @ Y"
  have 1: "\<not> prefix ''[['' (a @ Y)" using assms by (cases X) (auto simp: a_def)
  have "no_link (X @ '']]'') Y" by (rule no_link_no_bracket) (use assms in auto)
  then have nl: "no_link a Y" using 1 by (simp add: a_def)
  have h: "sub_wiki_links z m (Some CHR ''['') s2 =
     (case sub_wiki_links z m (Some CHR '']'') Y of
        Inl e \<Rightarrow> Inl e | Inr out \<Rightarrow> Inr (a @ out))"
    unfolding s2_def using sub_hop[OF nl, of z m "Some CHR ''[''"] by (simp add: a_def)
  have 2: "match_wiki_link prev (CHR ''!'' # CHR ''['' # s2) = None"
    by (simp add: match_wiki_link_def)
  have 3: "match_wiki_link (Some CHR ''!'') (CHR ''['' # s2) = None"
    by (simp add: match_wiki_link_def)
  have "sub_wiki_links z m prev (CHR ''!'' # CHR ''['' # s2) =
     (case sub_wiki_links z m (Some CHR ''['') s2 of
        Inl e \<Rightarrow> Inl e | Inr out \<Rightarrow> Inr (CHR ''!'' # CHR ''['' # out))"
    by (simp add: 2 3 split: sum.splits)
  then have "sub_wiki_links z m prev (CHR ''!'' # CHR ''['' # s2) =
     (case sub_wiki_links z m (Some CHR '']'') Y of
        Inl e \<Rightarrow> Inl e | Inr out \<Rightarrow> Inr (CHR ''!'' # CHR ''['' # a @ out))"
    by (simp add: h split: sum.splits)
  moreover have "''![['' @ X @ '']]'' @ Y = CHR ''!'' # CHR ''['' # s2"
    by (simp add: s2_def a_def)
  moreover have "''![['' @ X @ '']]'' @ out = CHR ''!'' # CHR ''['' # a @ out" for out
    by (simp add: a_def)
  ultimately show ?thesis by (simp only:)
qed

lemma title_of_plain: "CHR ''|'' \<notin> set L \<Longrightarrow> title_of L = L"
  by (simp add: title_of_def py_split_no_sep)

lemma replace_wiki_link_cases:
  assumes "length (py_split CHR ''|'' L) \<le> 2"
  shows "(m (title_of L) = None \<and> replace_wiki_link z m L = Inr (''[['' @ L @ '']]''))
       \<or> (\<exists>i lab. m (title_of L) = Some i \<and> set lab \<subseteq> set L \<and> CHR ''|'' \<notin> set lab \<and>
            replace_wiki_link z m L =
              Inr (if z then ''['' @ lab @ '']([['' @ i @ '']])''
                   else ''[['' @ i @ ''|'' @ lab @ '']]''))"
proof (cases "CHR ''|'' \<in> set L")
  case False
  show ?thesis
  proof (cases "m L")
    case None
    then show ?thesis using False by (simp add: replace_wiki_link_plain title_of_plain)
  next
    case (Some i)
    then have "m (title_of L) = Some i \<and> set L \<subseteq> set L \<and> CHR ''|'' \<notin> set L \<and>
            replace_wiki_link z m L =
              Inr (if z then ''['' @ L @ '']([['' @ i @ '']])''
                   else ''[['' @ i @ ''|'' @ L @ '']]'')"
      using False by (simp add: replace_wiki_link_plain title_of_plain)
    then show ?thesis by blast
  qed
next
  case True
  then have "length (py_split CHR ''|'' L) = 2"
    using py_split_has_sep[OF True] assms by simp
  then obtain T A where s: "py_split CHR ''|'' L = [T, A]"
    by (cases "py_split CHR ''|'' L"; cases "tl (py_split CHR ''|'' L)") auto
  from py_split_two[OF this] have L: "L = T @ CHR ''|'' # A"
    and T: "CHR ''|'' \<notin> set T" and A: "CHR ''|'' \<notin> set A" by auto
  have t: "title_of L = T" using s by (simp add: title_of_def)
  show ?thesis
  proof (cases "m T")
    case None
    then show ?thesis using replace_wiki_link_aliased[OF T A, of z m] L t by simp
  next
    case (Some i)
    have "set (py_strip A) \<subseteq> set L" using set_py_strip[of A] L by auto
    moreover have "CHR ''|'' \<notin> set (py_strip A)" using set_py_strip[of A] A by auto
    moreover have "replace_wiki_link z m L =
              Inr (if z then ''['' @ py_strip A @ '']([['' @ i @ '']])''
                   else ''[['' @ i @ ''|'' @ py_strip A @ '']]'')"
      using replace_wiki_link_aliased[OF T A, of z m] L Some by simp
    ultimately show ?thesis using Some t by blast
  qed
qed

lemma no_embed_ghost:
  assumes "CHR ''['' \<notin> set L"
  shows "no_embed (''[['' @ L @ '']]'') Y"
proof -
  have "no_embed L ('']]'' @ Y)" by (rule no_embed_no_bracket) (use assms in auto)
  moreover have "no_embed '']]'' Y" by simp
  ultimately have "no_embed (L @ '']]'') Y" by (rule no_embed_append)
  then show ?thesis by simp
qed

lemma no_embed_default:
  assumes "\<not> has_embed i" "CHR ''['' \<notin> set lab"
  shows "no_embed (''[['' @ i @ ''|'' @ lab @ '']]'') Y"
proof -
  have "no_embed (lab @ '']]'') Y"
    using no_embed_append[of lab "'']]''" Y] no_embed_no_bracket[of lab "'']]'' @ Y"] assms(2)
    by simp
  then have "no_embed (''|'' @ lab @ '']]'') Y" by simp
  moreover have "no_embed i ((''|'' @ lab @ '']]'') @ Y)"
    by (rule no_embed_id) (use assms in auto)
  ultimately have "no_embed (i @ ''|'' @ lab @ '']]'') Y" by (rule no_embed_append[rotated])
  then show ?thesis by simp
qed

lemma no_embed_zettlr:
  assumes "\<not> has_embed i" "CHR ''['' \<notin> set lab"
  shows "no_embed (''['' @ lab @ '']([['' @ i @ '']])'') Y"
proof -
  have 1: "no_embed ('']])'') Y" by simp
  have "no_embed i ('']])'' @ Y)" by (rule no_embed_id) (use assms in auto)
  then have "no_embed (i @ '']])'') Y" using 1 by (rule no_embed_append)
  then have 2: "no_embed ('']([['' @ i @ '']])'') Y" by simp
  have "no_embed lab (('']([['' @ i @ '']])'') @ Y)"
    by (rule no_embed_no_bracket) (use assms in auto)
  then have "no_embed (lab @ '']([['' @ i @ '']])'') Y" using 2 by (rule no_embed_append)
  then show ?thesis by simp
qed

lemma link_result:
  assumes "link_text L" "case m (title_of L) of None \<Rightarrow> True | Some i \<Rightarrow> \<not> has_embed i"
  shows "\<exists>R. replace_wiki_link z m L = Inr R \<and> prefix ''['' R \<and> (\<forall>Y. no_embed R Y)"
proof -
  have L: "CHR ''['' \<notin> set L" "length (py_split CHR ''|'' L) \<le> 2"
    using assms(1) by (auto simp: link_text_def)
  from replace_wiki_link_cases[OF L(2), of m z] show ?thesis
  proof
    assume "m (title_of L) = None \<and> replace_wiki_link z m L = Inr (''[['' @ L @ '']]'')"
    moreover have "prefix ''['' (''[['' @ L @ '']]'')" by simp
    ultimately show ?thesis using no_embed_ghost[OF L(1)] by blast
  next
    assume "\<exists>i lab. m (title_of L) = Some i \<and> set lab \<subseteq> set L \<and> CHR ''|'' \<notin> set lab \<and>
            replace_wiki_link z m L =
              Inr (if z then ''['' @ lab @ '']([['' @ i @ '']])''
                   else ''[['' @ i @ ''|'' @ lab @ '']]'')"
    then obtain i lab where k: "m (title_of L) = Some i" "set lab \<subseteq> set L"
      and r: "replace_wiki_link z m L =
              Inr (if z then ''['' @ lab @ '']([['' @ i @ '']])''
                   else ''[['' @ i @ ''|'' @ lab @ '']]'')" by blast
    have i: "\<not> has_embed i" using assms(2) k(1) by simp
    have lab: "CHR ''['' \<notin> set lab" using L(1) k(2) by blast
    show ?thesis
    proof (cases z)
      case True
      then have "replace_wiki_link z m L = Inr (''['' @ lab @ '']([['' @ i @ '']])'')"
        using r by simp
      moreover have "prefix ''['' (''['' @ lab @ '']([['' @ i @ '']])'')" by simp
      ultimately show ?thesis using no_embed_zettlr[OF i lab] by blast
    next
      case False
      then have "replace_wiki_link z m L = Inr (''[['' @ i @ ''|'' @ lab @ '']]'')"
        using r by simp
      moreover have "prefix ''['' (''[['' @ i @ ''|'' @ lab @ '']]'')" by simp
      ultimately show ?thesis using no_embed_default[OF i lab] by blast
    qed
  qed
qed

lemma next_text_render:
  assumes "\<not> prefix ''('' (next_text es final)"
  shows "\<not> prefix ''('' (render es final)"
proof (cases es)
  case Nil
  then show ?thesis using assms by simp
next
  case (Cons e es')
  obtain t it where e: "e = (t, it)" by (cases e)
  show ?thesis using assms Cons e by (cases t; cases it) auto
qed

lemma sub_document:
  "well_formed z m es final \<Longrightarrow> prev \<noteq> Some CHR ''!'' \<Longrightarrow>
   sub_wiki_links z m prev (render es final) = Inr (linked z m es final)"
proof (induction es arbitrary: prev)
  case Nil
  then have "no_link final []" by (simp add: plain_no_link)
  from sub_hop[OF this, of z m prev] show ?case by simp
next
  case (Cons e es)
  obtain t it where e: "e = (t, it)" by (cases e)
  show ?case
  proof (cases it)
    case (Link L)
    define Y where "Y = render es final"
    have wf: "plain t" "\<not> ends_with CHR ''['' t" "\<not> ends_with CHR ''!'' t" "link_text L"
      "\<not> prefix ''('' (next_text es final)"
      "case m (title_of L) of None \<Rightarrow> True | Some i \<Rightarrow> \<not> has_embed i"
      "well_formed z m es final"
      using Cons.prems(1) e Link by auto
    have t: "no_link t (''[['' @ L @ '']]'' @ Y)" using wf(1,2) by (simp add: plain_no_link)
    define p where "p = (if t = [] then prev else Some (last t))"
    have p: "p \<noteq> Some CHR ''!''" using wf(3) Cons.prems(2) by (auto simp: p_def ends_with_def)
    have Y: "\<not> prefix ''('' Y" unfolding Y_def by (rule next_text_render[OF wf(5)])
    have L: "L \<noteq> []" "nl \<notin> set L" "CHR '']'' \<notin> set L" using wf(4) by (auto simp: link_text_def)
    have mt: "match_wiki_link p (''[['' @ L @ '']]'' @ Y) = Some (L, Y)"
      by (rule match_wiki_link_exact[OF p L Y])
    from link_result[where m = m and z = z and L = L, OF wf(4,6)] obtain R where R: "replace_wiki_link z m L = Inr R" by blast
    have ih: "sub_wiki_links z m (Some CHR '']'') Y = Inr (linked z m es final)"
      unfolding Y_def by (rule Cons.IH[OF wf(7)]) simp
    have "sub_wiki_links z m p (''[['' @ L @ '']]'' @ Y) = Inr (R @ linked z m es final)"
      using mt R ih by simp
    then have "sub_wiki_links z m prev (t @ ''[['' @ L @ '']]'' @ Y) = Inr (t @ R @ linked z m es final)"
      using sub_hop[OF t, of z m prev] by (simp add: p_def)
    then show ?thesis using e Link R by (simp add: Y_def)
  next
    case (Embed X)
    define Y where "Y = render es final"
    have wf: "plain t" "embed_name X" "well_formed z m es final"
      using Cons.prems(1) e Embed by auto
    have t: "no_link t (''![['' @ X @ '']]'' @ Y)" using wf(1) by (simp add: plain_no_link)
    have X: "CHR ''['' \<notin> set X" using wf(2) by (simp add: embed_name_def)
    have ih: "sub_wiki_links z m (Some CHR '']'') Y = Inr (linked z m es final)"
      unfolding Y_def by (rule Cons.IH[OF wf(3)]) simp
    have "sub_wiki_links z m p (''![['' @ X @ '']]'' @ Y) = Inr (''![['' @ X @ '']]'' @ linked z m es final)" for p
      using sub_embed[OF X, of z m p Y] ih by simp
    then have "sub_wiki_links z m prev (t @ ''![['' @ X @ '']]'' @ Y)
        = Inr (t @ ''![['' @ X @ '']]'' @ linked z m es final)"
      using sub_hop[OF t, of z m prev] by simp
    then show ?thesis using e Embed by (simp add: Y_def)
  qed
qed

lemma on_line_here: "P s \<Longrightarrow> on_line P s"
  by (cases s) auto

lemma dots_lazy_off_line: "\<not> on_line follows r \<Longrightarrow> dots_lazy follows r = None"
proof (induction r)
  case Nil
  then show ?case by simp
next
  case (Cons c cs)
  show ?case
  proof (cases "c = nl")
    case True
    then show ?thesis by simp
  next
    case False
    then have n: "\<not> on_line follows cs" using Cons.prems by simp
    then have "\<not> follows cs" using on_line_here by blast
    then show ?thesis using False Cons.IH[OF n] by simp
  qed
qed

lemma has_extD: "has_ext e X \<Longrightarrow> \<exists>name. name \<noteq> [] \<and> X = name @ e"
proof -
  assume h: "has_ext e X"
  define k where "k = length X - length e"
  have "X = take k X @ drop k X" by simp
  moreover have "drop k X = e" using h by (simp add: has_ext_def k_def)
  moreover have "take k X \<noteq> []" using h by (auto simp: has_ext_def k_def)
  ultimately show ?thesis by metis
qed

lemma has_extI: "name \<noteq> [] \<Longrightarrow> has_ext e (name @ e)"
  by (simp add: has_ext_def)

lemma match_image_name:
  assumes "name \<noteq> []" "nl \<notin> set name" "CHR '']'' \<notin> set name"
    and "ext \<in> {''jpg'', ''jpeg'', ''png''}"
    and "ext = ''png'' \<longrightarrow> \<not> on_line follows_jpg r"
  shows "match_image (''![['' @ name @ ''.'' @ ext @ '']]'' @ r) =
           Some (name @ ''.'' @ ext, r)"
proof -
  let ?rest = "''.'' @ ext @ '']]'' @ r"
  have inside_jpg: "\<not> follows_jpg (v @ ?rest)" if "name = u @ v" "v \<noteq> []" for u v
    using not_follows_jpg_inside[of v ext r] that assms(3,4) by auto
  have inside_png: "\<not> follows_png (v @ ?rest)" if "name = u @ v" "v \<noteq> []" for u v
    using not_follows_png_inside[of v ext r] that assms(3,4) by auto
  consider "ext = ''jpg''" | "ext = ''jpeg''" | "ext = ''png''" using assms(4) by auto
  then show ?thesis
  proof cases
    case 1
    have "follows_jpg ?rest" using 1 by (simp add: follows_jpg_def)
    then have "dots_lazy follows_jpg (name @ ?rest) = Some (name, ?rest)"
      using dots_lazy_Some[of name follows_jpg ?rest] assms(1,2) inside_jpg by blast
    then show ?thesis using 1 by (simp add: match_image_def)
  next
    case 2
    have "follows_jpg ?rest" using 2 by (simp add: follows_jpg_def)
    then have "dots_lazy follows_jpg (name @ ?rest) = Some (name, ?rest)"
      using dots_lazy_Some[of name follows_jpg ?rest] assms(1,2) inside_jpg by blast
    then show ?thesis using 2 by (simp add: match_image_def)
  next
    case 3
    have nf: "\<not> follows_jpg (v @ ?rest)" if "name = u @ v" for u v
      using inside_jpg[OF that] 3 by (cases "v = []") (auto simp: follows_jpg_def)
    have a: "dots_lazy follows_jpg (name @ ?rest) =
        map_option (\<lambda>(t', r'). (name @ t', r')) (dots_lazy follows_jpg ?rest)"
      using dots_lazy_skip[of name follows_jpg ?rest] assms(2) nf by blast
    have r: "\<not> on_line follows_jpg r" using 3 assms(5) by simp
    then have "\<not> follows_jpg r" using on_line_here by blast
    then have b: "dots_lazy follows_jpg ?rest = None"
      using 3 dots_lazy_off_line[OF r] by (simp add: follows_jpg_def nl_def)
    have "follows_png ?rest" using 3 by (simp add: follows_png_def)
    then have "dots_lazy follows_png (name @ ?rest) = Some (name, ?rest)"
      using dots_lazy_Some[of name follows_png ?rest] assms(1,2) inside_png by blast
    then show ?thesis using 3 a b by (simp add: match_image_def)
  qed
qed

lemma match_image_embed:
  assumes "embed_name X" "jpg_name X \<or> png_name X"
    and "jpg_name X \<or> \<not> on_line follows_jpg Y"
  shows "match_image (''![['' @ X @ '']]'' @ Y) = Some (X, Y)"
proof -
  have X: "nl \<notin> set X" "CHR '']'' \<notin> set X" using assms(1) by (auto simp: embed_name_def)
  consider "has_ext ''.jpg'' X" | "has_ext ''.jpeg'' X" | "\<not> jpg_name X" "has_ext ''.png'' X"
    using assms(2) by (auto simp: jpg_name_def png_name_def)
  then show ?thesis
  proof cases
    case 1
    from has_extD[OF 1] obtain name where n: "name \<noteq> []" "X = name @ ''.'' @ ''jpg''" by auto
    have "match_image (''![['' @ name @ ''.'' @ ''jpg'' @ '']]'' @ Y) = Some (name @ ''.'' @ ''jpg'', Y)"
      by (rule match_image_name) (use n X in auto)
    then show ?thesis using n(2) by simp
  next
    case 2
    from has_extD[OF 2] obtain name where n: "name \<noteq> []" "X = name @ ''.'' @ ''jpeg''" by auto
    have "match_image (''![['' @ name @ ''.'' @ ''jpeg'' @ '']]'' @ Y) = Some (name @ ''.'' @ ''jpeg'', Y)"
      by (rule match_image_name) (use n X in auto)
    then show ?thesis using n(2) by simp
  next
    case 3
    from has_extD[OF 3(2)] obtain name where n: "name \<noteq> []" "X = name @ ''.'' @ ''png''" by auto
    have "match_image (''![['' @ name @ ''.'' @ ''png'' @ '']]'' @ Y) = Some (name @ ''.'' @ ''png'', Y)"
      by (rule match_image_name) (use n X 3(1) assms(3) in auto)
    then show ?thesis using n(2) by simp
  qed
qed

lemma prefix_of_ext:
  assumes "prefix (e @ '']]'') (v @ '']]'' @ Y)" "CHR '']'' \<notin> set v" "CHR '']'' \<notin> set e"
  shows "v = e"
proof -
  have "prefix v e" using prefix_rb_split[OF assms(1,2)] .
  then obtain q where q: "e = v @ q" by (auto simp: prefix_def)
  with assms(1) have p: "prefix (q @ '']]'') ('']]'' @ Y)" by simp
  have "q = []"
  proof (cases q)
    case Nil
    then show ?thesis .
  next
    case (Cons c q')
    then have "c = CHR '']''" using p by simp
    then show ?thesis using assms(3) q Cons by simp
  qed
  then show ?thesis using q by simp
qed

lemma no_close_in_name:
  assumes "CHR '']'' \<notin> set X" "X = u @ v" "u \<noteq> []"
  shows "follows_jpg (v @ '']]'' @ Y) \<Longrightarrow> jpg_name X"
    and "follows_png (v @ '']]'' @ Y) \<Longrightarrow> png_name X"
proof -
  have v: "CHR '']'' \<notin> set v" using assms(1,2) by simp
  {
    assume "follows_jpg (v @ '']]'' @ Y)"
    from follows_jpg_D[OF this] have "v = ''.jpg'' \<or> v = ''.jpeg''"
      using prefix_of_ext[of "''.jpg''" v Y] prefix_of_ext[of "''.jpeg''" v Y] v by auto
    then show "jpg_name X" using assms(2,3) has_extI[of u] by (auto simp: jpg_name_def)
  }
  {
    assume "follows_png (v @ '']]'' @ Y)"
    from follows_png_D[OF this] have "v = ''.png''"
      using prefix_of_ext[of "''.png''" v Y] v by auto
    then show "png_name X" using assms(2,3) has_extI[of u] by (auto simp: png_name_def)
  }
qed

lemma dots_lazy_embed_None:
  assumes "nl \<notin> set X" "CHR '']'' \<notin> set X"
    and "\<And>u v. X = u @ v \<Longrightarrow> u \<noteq> [] \<Longrightarrow> \<not> follows (v @ '']]'' @ Y)"
    and "\<not> follows ('']'' @ Y)" "\<not> on_line follows Y"
  shows "dots_lazy follows (X @ '']]'' @ Y) = None"
proof -
  have Y: "dots_lazy follows Y = None" by (rule dots_lazy_off_line[OF assms(5)])
  have fY: "\<not> follows Y" using assms(5) on_line_here by blast
  have 1: "dots_lazy follows ('']]'' @ Y) = None"
    using Y fY assms(4) by (simp add: nl_def)
  show ?thesis
  proof (cases "X = []")
    case True
    then show ?thesis using 1 by simp
  next
    case False
    have "dots_lazy follows (X @ ('']]'' @ Y)) =
        map_option (\<lambda>(t', r'). (X @ t', r')) (dots_lazy follows ('']]'' @ Y))"
    proof (rule dots_lazy_skip[OF assms(1)])
      fix u v assume "X = u @ v" "u \<noteq> []"
      then show "\<not> follows (v @ '']]'' @ Y)" using assms(3) by blast
    qed
    then show ?thesis using 1 by simp
  qed
qed

lemma match_image_other:
  assumes "embed_name X" "\<not> jpg_name X" "\<not> png_name X"
    and "\<not> on_line follows_jpg Y" "\<not> on_line follows_png Y"
  shows "match_image (''![['' @ X @ '']]'' @ Y) = None"
proof -
  have X: "nl \<notin> set X" "CHR '']'' \<notin> set X" using assms(1) by (auto simp: embed_name_def)
  have "dots_lazy follows_jpg (X @ '']]'' @ Y) = None"
  proof (rule dots_lazy_embed_None[OF X _ _ assms(4)])
    fix u v assume "X = u @ v" "u \<noteq> []"
    then show "\<not> follows_jpg (v @ '']]'' @ Y)"
      using no_close_in_name(1)[OF X(2)] assms(2) by blast
  qed (simp add: follows_jpg_def)
  moreover have "dots_lazy follows_png (X @ '']]'' @ Y) = None"
  proof (rule dots_lazy_embed_None[OF X _ _ assms(5)])
    fix u v assume "X = u @ v" "u \<noteq> []"
    then show "\<not> follows_png (v @ '']]'' @ Y)"
      using no_close_in_name(2)[OF X(2)] assms(3) by blast
  qed (simp add: follows_png_def)
  ultimately show ?thesis by (simp add: match_image_def)
qed

lemma text_before_link:
  "plain t \<Longrightarrow> \<not> ends_with CHR ''['' t \<Longrightarrow> \<not> ends_with CHR ''!'' t \<Longrightarrow> no_embed t Y"
  by (rule plain_no_embed) auto

lemma text_before_embed:
  "plain t \<Longrightarrow> \<not> prefix ''['' Y \<Longrightarrow> no_embed t Y"
  by (rule plain_no_embed) auto

lemma no_embed_converted:
  assumes "CHR ''['' \<notin> set X"
  shows "no_embed (''![]('' @ X @ '')'') Y"
proof -
  have "no_embed X ('')'' @ Y)" by (rule no_embed_no_bracket) (use assms in auto)
  moreover have "no_embed '')'' Y" by simp
  ultimately have "no_embed (X @ '')'') Y" by (rule no_embed_append)
  then show ?thesis by simp
qed

lemma image_matches_final: "plain final \<Longrightarrow> image_matches final = []"
proof -
  assume "plain final"
  then have "no_embed final []" by (rule text_before_embed) simp
  from img_hop[OF this] show ?thesis by simp
qed

lemma image_matches_embed:
  assumes "embed_name X"
    and "jpg_name X \<or> \<not> on_line follows_jpg Y"
    and "jpg_name X \<or> png_name X \<or> \<not> on_line follows_png Y"
  shows "image_matches (''![['' @ X @ '']]'' @ Y) =
           (if jpg_name X \<or> png_name X then X # image_matches Y else image_matches Y)"
proof (cases "jpg_name X \<or> png_name X")
  case True
  have "match_image (''![['' @ X @ '']]'' @ Y) = Some (X, Y)"
    by (rule match_image_embed[OF assms(1) True assms(2)])
  then have "match_image (CHR ''!'' # ''[['' @ X @ '']]'' @ Y) = Some (X, Y)" by simp
  then have "image_matches (CHR ''!'' # ''[['' @ X @ '']]'' @ Y) = X # image_matches Y"
    by (simp only: image_matches.simps option.case prod.case)
  then show ?thesis using True by simp
next
  case False
  have "match_image (''![['' @ X @ '']]'' @ Y) = None"
    by (rule match_image_other[OF assms(1)]) (use False assms in auto)
  then have "match_image (CHR ''!'' # ''[['' @ X @ '']]'' @ Y) = None" by simp
  then have "image_matches (CHR ''!'' # ''[['' @ X @ '']]'' @ Y)
      = image_matches (''[['' @ X @ '']]'' @ Y)"
    by (simp only: image_matches.simps option.case)
  also have "\<dots> = image_matches Y"
  proof -
    have "CHR ''['' \<notin> set X" using assms(1) by (simp add: embed_name_def)
    from img_hop[OF no_embed_ghost[OF this, of Y]] show ?thesis by simp
  qed
  finally show ?thesis using False by simp
qed

lemma image_matches_document:
  "well_formed z m es final \<Longrightarrow> image_matches (linked z m es final) = names es"
proof (induction es)
  case Nil
  then show ?case by (simp add: image_matches_final)
next
  case (Cons e es)
  obtain t it where e: "e = (t, it)" by (cases e)
  define Y where "Y = linked z m es final"
  show ?case
  proof (cases it)
    case (Link L)
    have wf: "plain t" "\<not> ends_with CHR ''['' t" "\<not> ends_with CHR ''!'' t" "link_text L"
      "case m (title_of L) of None \<Rightarrow> True | Some i \<Rightarrow> \<not> has_embed i"
      "well_formed z m es final"
      using Cons.prems e Link by auto
    from link_result[where m = m and z = z and L = L, OF wf(4,5)] obtain R where
      R: "replace_wiki_link z m L = Inr R" "\<And>Y. no_embed R Y" by blast
    have "image_matches (t @ R @ Y) = image_matches (R @ Y)"
      by (rule img_hop) (rule text_before_link[OF wf(1,2,3)])
    also have "\<dots> = image_matches Y" by (rule img_hop) (rule R(2))
    finally show ?thesis using e Link R(1) Cons.IH[OF wf(6)] by (simp add: Y_def)
  next
    case (Embed X)
    have wf: "plain t" "embed_name X"
      "jpg_name X \<or> \<not> on_line follows_jpg Y"
      "jpg_name X \<or> png_name X \<or> \<not> on_line follows_png Y"
      "well_formed z m es final"
      using Cons.prems e Embed by (auto simp: Y_def)
    have "image_matches (t @ ''![['' @ X @ '']]'' @ Y) = image_matches (''![['' @ X @ '']]'' @ Y)"
      by (rule img_hop) (rule text_before_embed[OF wf(1)], simp)
    also have "\<dots> = (if jpg_name X \<or> png_name X then X # image_matches Y else image_matches Y)"
      by (rule image_matches_embed[OF wf(2,3,4)])
    finally show ?thesis using e Embed Cons.IH[OF wf(5)] by (simp add: Y_def)
  qed
qed

lemma replace_image_final:
  "plain final \<Longrightarrow> replace_image final g = final"
proof -
  assume "plain final"
  then have "no_embed final []" by (rule text_before_embed) simp
  from rep_hop[OF _ this, of "''![['' @ g @ '']]''" "''![]('' @ g @ '')''"]
  show ?thesis by (simp add: replace_image_def)
qed

lemma replace_embed:
  assumes "CHR ''['' \<notin> set X" "CHR '']'' \<notin> set X" "CHR '']'' \<notin> set g"
  shows "py_replace (''![['' @ g @ '']]'') (''![]('' @ g @ '')'') (''![['' @ X @ '']]'' @ Y) =
           (if X = g then ''![]('' @ X @ '')'' else ''![['' @ X @ '']]'')
           @ py_replace (''![['' @ g @ '']]'') (''![]('' @ g @ '')'') Y"
proof (cases "X = g")
  case True
  define old where "old = ''![['' @ g @ '']]''"
  define new where "new = ''![]('' @ g @ '')''"
  have "py_replace old new (old @ Y) = new @ py_replace old new (drop (length old) (old @ Y))"
    by (rule py_replace_hit) (simp_all add: old_def)
  then show ?thesis using True by (simp add: old_def new_def)
next
  case False
  define old where "old = ''![['' @ g @ '']]''"
  define new where "new = ''![]('' @ g @ '')''"
  define s' where "s' = ''[['' @ X @ '']]'' @ Y"
  have np: "\<not> prefix old (CHR ''!'' # s')"
  proof
    assume "prefix old (CHR ''!'' # s')"
    then have "prefix (g @ '']]'') (X @ '']]'' @ Y)" by (simp add: old_def s'_def)
    from prefix_of_ext[OF this assms(2,3)] show False using False by simp
  qed
  have old: "old \<noteq> []" "prefix ''![['' old" by (simp_all add: old_def)
  have "py_replace old new (CHR ''!'' # s') = CHR ''!'' # py_replace old new s'"
    by (rule py_replace_miss[OF old(1) np])
  also have "py_replace old new s' = ''[['' @ X @ '']]'' @ py_replace old new Y"
    unfolding s'_def using rep_hop[OF old(2) no_embed_ghost[OF assms(1), of Y], of new] by simp
  finally have "py_replace old new (CHR ''!'' # s') =
      CHR ''!'' # ''[['' @ X @ '']]'' @ py_replace old new Y" .
  then show ?thesis using False by (simp add: old_def new_def s'_def)
qed

lemma replace_conv:
  assumes "embed_name g"
  shows "well_formed z m es final \<Longrightarrow>
         replace_image (conv S z m es final) g = conv (insert g S) z m es final"
proof (induction es)
  case Nil
  then show ?case by (simp add: replace_image_final)
next
  case (Cons e es)
  obtain t it where e: "e = (t, it)" by (cases e)
  define old where "old = ''![['' @ g @ '']]''"
  define new where "new = ''![]('' @ g @ '')''"
  define Y where "Y = conv S z m es final"
  define Y' where "Y' = conv (insert g S) z m es final"
  have old: "prefix ''![['' old" by (simp add: old_def)
  have g: "CHR '']'' \<notin> set g" using assms by (simp add: embed_name_def)
  show ?case
  proof (cases it)
    case (Link L)
    have wf: "plain t" "\<not> ends_with CHR ''['' t" "\<not> ends_with CHR ''!'' t" "link_text L"
      "case m (title_of L) of None \<Rightarrow> True | Some i \<Rightarrow> \<not> has_embed i"
      "well_formed z m es final"
      using Cons.prems e Link by auto
    from link_result[where m = m and z = z and L = L, OF wf(4,5)] obtain R where
      R: "replace_wiki_link z m L = Inr R" "\<And>Y. no_embed R Y" by blast
    have ih: "py_replace old new Y = Y'"
      using Cons.IH[OF wf(6)] by (simp add: replace_image_def old_def new_def Y_def Y'_def)
    have "py_replace old new (t @ R @ Y) = t @ py_replace old new (R @ Y)"
      by (rule rep_hop[OF old]) (rule text_before_link[OF wf(1,2,3)])
    also have "py_replace old new (R @ Y) = R @ py_replace old new Y"
      by (rule rep_hop[OF old]) (rule R(2))
    finally have "py_replace old new (t @ R @ Y) = t @ R @ Y'" using ih by simp
    then show ?thesis using e Link R(1)
      by (simp add: replace_image_def old_def new_def Y_def Y'_def)
  next
    case (Embed X)
    have wf: "plain t" "embed_name X" "well_formed z m es final"
      using Cons.prems e Embed by auto
    have X: "CHR ''['' \<notin> set X" "CHR '']'' \<notin> set X" using wf(2) by (auto simp: embed_name_def)
    have ih: "py_replace old new Y = Y'"
      using Cons.IH[OF wf(3)] by (simp add: replace_image_def old_def new_def Y_def Y'_def)
    show ?thesis
    proof (cases "X \<in> S")
      case True
      have "py_replace old new (t @ (''![]('' @ X @ '')'') @ Y) =
            t @ py_replace old new ((''![]('' @ X @ '')'') @ Y)"
        by (rule rep_hop[OF old]) (rule text_before_embed[OF wf(1)], simp)
      also have "py_replace old new ((''![]('' @ X @ '')'') @ Y) =
            (''![]('' @ X @ '')'') @ py_replace old new Y"
        by (rule rep_hop[OF old]) (rule no_embed_converted[OF X(1)])
      finally have "py_replace old new (t @ (''![]('' @ X @ '')'') @ Y) =
            t @ (''![]('' @ X @ '')'') @ Y'" using ih by simp
      then show ?thesis using e Embed True
        by (simp add: replace_image_def old_def new_def Y_def Y'_def)
    next
      case False
      have "py_replace old new (t @ (''![['' @ X @ '']]'' @ Y)) =
            t @ py_replace old new (''![['' @ X @ '']]'' @ Y)"
        by (rule rep_hop[OF old]) (rule text_before_embed[OF wf(1)], simp)
      also have "py_replace old new (''![['' @ X @ '']]'' @ Y) =
           (if X = g then ''![]('' @ X @ '')'' else ''![['' @ X @ '']]'') @ py_replace old new Y"
        unfolding old_def new_def by (rule replace_embed[OF X g])
      finally have "py_replace old new (t @ (''![['' @ X @ '']]'' @ Y)) =
            t @ (if X = g then ''![]('' @ X @ '')'' else ''![['' @ X @ '']]'') @ Y'"
        using ih by simp
      then show ?thesis using e Embed False
        by (simp add: replace_image_def old_def new_def Y_def Y'_def)
    qed
  qed
qed

lemma foldl_conv:
  assumes "well_formed z m es final"
  shows "\<forall>g \<in> set gs. embed_name g \<Longrightarrow>
         foldl replace_image (conv S z m es final) gs = conv (S \<union> set gs) z m es final"
proof (induction gs arbitrary: S)
  case Nil
  then show ?case by simp
next
  case (Cons g gs)
  have "replace_image (conv S z m es final) g = conv (insert g S) z m es final"
    by (rule replace_conv[OF _ assms]) (use Cons.prems in simp)
  moreover have "foldl replace_image (conv (insert g S) z m es final) gs
      = conv (insert g S \<union> set gs) z m es final"
    by (rule Cons.IH) (use Cons.prems in simp)
  ultimately show ?case by simp
qed

lemma conv_linked: "conv {} z m es final = linked z m es final"
proof (induction es)
  case Nil
  then show ?case by simp
next
  case (Cons e es)
  obtain t it where e: "e = (t, it)" by (cases e)
  show ?case using Cons e by (cases it) auto
qed

lemma names_embed_name:
  "well_formed z m es final \<Longrightarrow> \<forall>g \<in> set (names es). embed_name g"
proof (induction es)
  case Nil
  then show ?case by simp
next
  case (Cons e es)
  obtain t it where e: "e = (t, it)" by (cases e)
  show ?case using Cons e by (cases it) auto
qed

lemma names_image: "g \<in> set (names es) \<Longrightarrow> jpg_name g \<or> png_name g"
proof (induction es)
  case Nil
  then show ?case by simp
next
  case (Cons e es)
  obtain t it where e: "e = (t, it)" by (cases e)
  show ?case using Cons e by (cases it) (auto split: if_splits)
qed

lemma conv_rewritten:
  "set (names es) \<subseteq> S \<Longrightarrow> (\<forall>g \<in> S. jpg_name g \<or> png_name g) \<Longrightarrow>
   conv S z m es final = rewritten z m es final"
proof (induction es)
  case Nil
  then show ?case by simp
next
  case (Cons e es)
  obtain t it where e: "e = (t, it)" by (cases e)
  show ?case
  proof (cases it)
    case (Link L)
    then show ?thesis using Cons e by simp
  next
    case (Embed X)
    have "set (names es) \<subseteq> S" using Cons.prems(1) e Embed by (auto split: if_splits)
    then have ih: "conv S z m es final = rewritten z m es final"
      using Cons.IH Cons.prems(2) by blast
    have "(X \<in> S) = (jpg_name X \<or> png_name X)"
      using Cons.prems e Embed by auto
    then show ?thesis using ih e Embed by simp
  qed
qed

lemma image_pass_document:
  assumes "well_formed z m es final"
  shows "image_pass (linked z m es final) = rewritten z m es final"
proof -
  have "image_pass (linked z m es final) = foldl replace_image (conv {} z m es final) (names es)"
    by (simp add: image_pass_def image_matches_document[OF assms] conv_linked)
  also have "\<dots> = conv ({} \<union> set (names es)) z m es final"
    by (rule foldl_conv[OF assms names_embed_name[OF assms]])
  also have "\<dots> = rewritten z m es final"
    by (rule conv_rewritten) (use names_image in auto)
  finally show ?thesis .
qed

lemma rewriter_on_document:
  assumes "well_formed z m es final"
  shows "replace_wiki_links z m (render es final) = Inr (rewritten z m es final)"
  using sub_document[OF assms, of None] image_pass_document[OF assms]
  by (simp add: replace_wiki_links_def)

lemma converts_refl: "converts s s"
  by (induction s) (auto intro: converts.intros)

lemma converts_append: "converts s1 s2 \<Longrightarrow> converts (a @ s1) (a @ s2)"
  by (induction a) (auto intro: converts.intros)

lemma converts_document:
  "well_formed z m es final \<Longrightarrow> converts (linked z m es final) (rewritten z m es final)"
proof (induction es)
  case Nil
  then show ?case by (simp add: converts_refl)
next
  case (Cons e es)
  obtain t it where e: "e = (t, it)" by (cases e)
  show ?case
  proof (cases it)
    case (Link L)
    then have "converts (linked z m es final) (rewritten z m es final)"
      using Cons e by simp
    then have "converts (t @ linked_item z m it @ linked z m es final)
                        (t @ linked_item z m it @ rewritten z m es final)"
      using converts_append[of _ _ "t @ linked_item z m it"] by simp
    then show ?thesis using e Link by simp
  next
    case (Embed X)
    then have ih: "converts (linked z m es final) (rewritten z m es final)"
      and X: "nl \<notin> set X" "CHR '']'' \<notin> set X"
      using Cons e by (auto simp: embed_name_def)
    show ?thesis
    proof (cases "jpg_name X \<or> png_name X")
      case True
      have "converts (''![['' @ X @ '']]'' @ linked z m es final)
                     (''![]('' @ X @ '')'' @ rewritten z m es final)"
        by (rule converts_Embed[OF ih X])
      from converts_append[OF this, of t] show ?thesis using e Embed True by simp
    next
      case False
      from converts_append[OF ih, of "t @ ''![['' @ X @ '']]''"]
      show ?thesis using e Embed False by simp
    qed
  qed
qed

lemma converts_prefix:
  "converts s1 s2 \<Longrightarrow> CHR ''!'' \<notin> set q \<Longrightarrow> prefix q s2 \<Longrightarrow> prefix q s1"
proof (induction arbitrary: q rule: converts.induct)
  case converts_Nil
  then show ?case by simp
next
  case (converts_Cons s1 s2 c)
  then show ?case by (cases q) auto
next
  case (converts_Embed s1 s2 X)
  then show ?case by (cases q) auto
qed

lemma converts_follows_jpg: "converts s1 s2 \<Longrightarrow> follows_jpg s2 \<Longrightarrow> follows_jpg s1"
  unfolding follows_jpg_def
  using converts_prefix[of s1 s2 "''.jpeg]]''"] converts_prefix[of s1 s2 "''.jpg]]''"]
  by auto

lemma converts_follows_png: "converts s1 s2 \<Longrightarrow> follows_png s2 \<Longrightarrow> follows_png s1"
  unfolding follows_png_def
  using converts_prefix[of s1 s2 "''.png]]''"] by auto

lemma no_ext_before_paren:
  assumes "CHR '']'' \<notin> set v" "CHR '')'' \<notin> set e" "CHR '']'' \<notin> set e"
  shows "\<not> prefix (e @ '']]'') (v @ '')'' @ Y)"
proof
  assume p: "prefix (e @ '']]'') (v @ '')'' @ Y)"
  have "prefix v e" using prefix_rb_split[OF p assms(1)] .
  then obtain q where q: "e = v @ q" by (auto simp: prefix_def)
  with p have "prefix (q @ '']]'') ('')'' @ Y)" by simp
  then show False using assms(2) q by (cases q) auto
qed

lemma not_follows_before_paren:
  assumes "CHR '']'' \<notin> set v"
  shows "\<not> follows_jpg (v @ '')'' @ Y)" "\<not> follows_png (v @ '')'' @ Y)"
  using no_ext_before_paren[OF assms, of "''.jpg''" Y] no_ext_before_paren[OF assms, of "''.jpeg''" Y]
    no_ext_before_paren[OF assms, of "''.png''" Y]
  by (auto simp: follows_jpg_def follows_png_def)

lemma follows_jpg_hd: "follows_jpg (c # s) \<Longrightarrow> c = CHR ''.''"
  by (auto simp: follows_jpg_def)

lemma follows_png_hd: "follows_png (c # s) \<Longrightarrow> c = CHR ''.''"
  by (auto simp: follows_png_def)

lemma on_line_append: "nl \<notin> set a \<Longrightarrow> on_line P Y \<Longrightarrow> on_line P (a @ Y)"
  by (induction a) auto

lemma on_line_name_jpg:
  "CHR '']'' \<notin> set X \<Longrightarrow> on_line follows_jpg (X @ '')'' @ Y) \<Longrightarrow> on_line follows_jpg Y"
proof (induction X)
  case Nil
  then show ?case by (auto simp: follows_jpg_def)
next
  case (Cons c X)
  have "\<not> follows_jpg ((c # X) @ '')'' @ Y)"
    by (rule not_follows_before_paren(1)) (use Cons.prems in simp)
  then show ?case using Cons by auto
qed

lemma on_line_name_png:
  "CHR '']'' \<notin> set X \<Longrightarrow> on_line follows_png (X @ '')'' @ Y) \<Longrightarrow> on_line follows_png Y"
proof (induction X)
  case Nil
  then show ?case by (auto simp: follows_png_def)
next
  case (Cons c X)
  have "\<not> follows_png ((c # X) @ '')'' @ Y)"
    by (rule not_follows_before_paren(2)) (use Cons.prems in simp)
  then show ?case using Cons by auto
qed

lemma converts_on_line_jpg:
  "converts s1 s2 \<Longrightarrow> on_line follows_jpg s2 \<Longrightarrow> on_line follows_jpg s1"
proof (induction rule: converts.induct)
  case converts_Nil
  then show ?case by simp
next
  case (converts_Cons s1 s2 c)
  have "follows_jpg (c # s2) \<Longrightarrow> follows_jpg (c # s1)"
    using converts_follows_jpg[OF converts.converts_Cons[OF converts_Cons.hyps]] .
  then show ?case using converts_Cons by auto
next
  case (converts_Embed s1 s2 X)
  have "on_line follows_jpg (X @ '')'' @ s2)"
    using converts_Embed.prems by (auto dest: follows_jpg_hd)
  then have "on_line follows_jpg s2" by (rule on_line_name_jpg[OF converts_Embed.hyps(3)])
  then have "on_line follows_jpg s1" by (rule converts_Embed.IH)
  then show ?case
    using on_line_append[of "''![['' @ X @ '']]''" follows_jpg s1] converts_Embed.hyps(2)
    by (simp add: nl_def)
qed

lemma converts_on_line_png:
  "converts s1 s2 \<Longrightarrow> on_line follows_png s2 \<Longrightarrow> on_line follows_png s1"
proof (induction rule: converts.induct)
  case converts_Nil
  then show ?case by simp
next
  case (converts_Cons s1 s2 c)
  have "follows_png (c # s2) \<Longrightarrow> follows_png (c # s1)"
    using converts_follows_png[OF converts.converts_Cons[OF converts_Cons.hyps]] .
  then show ?case using converts_Cons by auto
next
  case (converts_Embed s1 s2 X)
  have "on_line follows_png (X @ '')'' @ s2)"
    using converts_Embed.prems by (auto dest: follows_png_hd)
  then have "on_line follows_png s2" by (rule on_line_name_png[OF converts_Embed.hyps(3)])
  then have "on_line follows_png s1" by (rule converts_Embed.IH)
  then show ?case
    using on_line_append[of "''![['' @ X @ '']]''" follows_png s1] converts_Embed.hyps(2)
    by (simp add: nl_def)
qed

lemma image_matches_rewritten:
  "well_formed z m es final \<Longrightarrow> image_matches (rewritten z m es final) = []"
proof (induction es)
  case Nil
  then show ?case by (simp add: image_matches_final)
next
  case (Cons e es)
  obtain t it where e: "e = (t, it)" by (cases e)
  define Y where "Y = rewritten z m es final"
  show ?case
  proof (cases it)
    case (Link L)
    have wf: "plain t" "\<not> ends_with CHR ''['' t" "\<not> ends_with CHR ''!'' t" "link_text L"
      "case m (title_of L) of None \<Rightarrow> True | Some i \<Rightarrow> \<not> has_embed i"
      "well_formed z m es final"
      using Cons.prems e Link by auto
    from link_result[where m = m and z = z and L = L, OF wf(4,5)] obtain R where
      R: "replace_wiki_link z m L = Inr R" "\<And>Y. no_embed R Y" by blast
    have "image_matches (t @ R @ Y) = image_matches (R @ Y)"
      by (rule img_hop) (rule text_before_link[OF wf(1,2,3)])
    also have "\<dots> = image_matches Y" by (rule img_hop) (rule R(2))
    finally show ?thesis using e Link R(1) Cons.IH[OF wf(6)] by (simp add: Y_def)
  next
    case (Embed X)
    have wf: "plain t" "embed_name X"
      "jpg_name X \<or> \<not> on_line follows_jpg (linked z m es final)"
      "jpg_name X \<or> png_name X \<or> \<not> on_line follows_png (linked z m es final)"
      "well_formed z m es final"
      using Cons.prems e Embed by auto
    have X: "CHR ''['' \<notin> set X" using wf(2) by (simp add: embed_name_def)
    have c: "converts (linked z m es final) Y" unfolding Y_def by (rule converts_document[OF wf(5)])
    show ?thesis
    proof (cases "jpg_name X \<or> png_name X")
      case True
      have "image_matches (t @ (''![]('' @ X @ '')'') @ Y) = image_matches ((''![]('' @ X @ '')'') @ Y)"
        by (rule img_hop) (rule text_before_embed[OF wf(1)], simp)
      also have "\<dots> = image_matches Y" by (rule img_hop) (rule no_embed_converted[OF X])
      finally show ?thesis using e Embed True Cons.IH[OF wf(5)] by (simp add: Y_def)
    next
      case False
      have j: "\<not> on_line follows_jpg Y" using wf(3) False converts_on_line_jpg[OF c] by blast
      have p: "\<not> on_line follows_png Y" using wf(4) False converts_on_line_png[OF c] by blast
      have "image_matches (t @ ''![['' @ X @ '']]'' @ Y) = image_matches (''![['' @ X @ '']]'' @ Y)"
        by (rule img_hop) (rule text_before_embed[OF wf(1)], simp)
      also have "\<dots> = (if jpg_name X \<or> png_name X then X # image_matches Y else image_matches Y)"
        by (rule image_matches_embed[OF wf(2)]) (use j p in auto)
      finally show ?thesis using e Embed False Cons.IH[OF wf(5)] by (simp add: Y_def)
    qed
  qed
qed

lemma next_text_rewritten:
  assumes "well_formed z m es final" "\<not> prefix ''('' (next_text es final)"
  shows "\<not> prefix ''('' (rewritten z m es final)"
proof (cases es)
  case Nil
  then show ?thesis using assms by simp
next
  case (Cons e es')
  obtain t it where e: "e = (t, it)" by (cases e)
  show ?thesis
  proof (cases it)
    case (Link L)
    then have wf: "link_text L" "case m (title_of L) of None \<Rightarrow> True | Some i \<Rightarrow> \<not> has_embed i"
      using assms(1) Cons e by auto
    from link_result[where m = m and z = z and L = L, OF wf] obtain R where
      R: "replace_wiki_link z m L = Inr R" "prefix ''['' R" by blast
    then show ?thesis using assms(2) Cons e Link by (cases t; cases R) auto
  next
    case (Embed X)
    then show ?thesis using assms(2) Cons e by (cases t) auto
  qed
qed

lemma sub_link_stable:
  assumes L: "link_text L"
    and ids: "case m (title_of L) of None \<Rightarrow> True
              | Some i \<Rightarrow> i \<noteq> [] \<and> m i = None \<and> nl \<notin> set i \<and> CHR ''['' \<notin> set i
                   \<and> CHR '']'' \<notin> set i \<and> CHR ''|'' \<notin> set i"
    and R: "replace_wiki_link z m L = Inr R"
    and p: "p \<noteq> Some CHR ''!''"
    and Y: "\<not> prefix ''('' Y" "\<And>q. q \<noteq> Some CHR ''!'' \<Longrightarrow> sub_wiki_links z m q Y = Inr Y"
  shows "sub_wiki_links z m p (R @ Y) = Inr (R @ Y)"
proof -
  have L': "L \<noteq> []" "nl \<notin> set L" "CHR ''['' \<notin> set L" "CHR '']'' \<notin> set L"
    "length (py_split CHR ''|'' L) \<le> 2" using L by (auto simp: link_text_def)
  have link: "sub_wiki_links z m q (''[['' @ K @ '']]'' @ W) = Inr (''[['' @ K @ '']]'' @ W')"
    if "q \<noteq> Some CHR ''!''" "K \<noteq> []" "nl \<notin> set K" "CHR '']'' \<notin> set K" "\<not> prefix ''('' W"
      "replace_wiki_link z m K = Inr (''[['' @ K @ '']]'')"
      "sub_wiki_links z m (Some CHR '']'') W = Inr W'" for q K W W'
  proof -
    have "match_wiki_link q (''[['' @ K @ '']]'' @ W) = Some (K, W)"
      by (rule match_wiki_link_exact[OF that(1-5)])
    then have "match_wiki_link q (CHR ''['' # CHR ''['' # K @ '']]'' @ W) = Some (K, W)" by simp
    then have "sub_wiki_links z m q (CHR ''['' # CHR ''['' # K @ '']]'' @ W)
        = Inr ((''[['' @ K @ '']]'') @ W')"
      using that(6,7) by (simp only: sub_wiki_links.simps option.case prod.case sum.case)
    then show ?thesis by simp
  qed
  from replace_wiki_link_cases[OF L'(5), of m z] show ?thesis
  proof
    assume g: "m (title_of L) = None \<and> replace_wiki_link z m L = Inr (''[['' @ L @ '']]'')"
    then have "R = ''[['' @ L @ '']]''" using R by simp
    moreover have "sub_wiki_links z m p (''[['' @ L @ '']]'' @ Y) = Inr (''[['' @ L @ '']]'' @ Y)"
      by (rule link[OF p L'(1,2,4) Y(1)]) (use g Y(2) in auto)
    ultimately show ?thesis by simp
  next
    assume "\<exists>i lab. m (title_of L) = Some i \<and> set lab \<subseteq> set L \<and> CHR ''|'' \<notin> set lab \<and>
            replace_wiki_link z m L =
              Inr (if z then ''['' @ lab @ '']([['' @ i @ '']])''
                   else ''[['' @ i @ ''|'' @ lab @ '']]'')"
    then obtain i lab where k: "m (title_of L) = Some i" "set lab \<subseteq> set L" "CHR ''|'' \<notin> set lab"
      and r: "replace_wiki_link z m L =
              Inr (if z then ''['' @ lab @ '']([['' @ i @ '']])''
                   else ''[['' @ i @ ''|'' @ lab @ '']]'')" by blast
    have i: "i \<noteq> []" "nl \<notin> set i" "CHR ''['' \<notin> set i" "CHR '']'' \<notin> set i"
      "CHR ''|'' \<notin> set i" "m i = None" using ids k(1) by auto
    have lab: "nl \<notin> set lab" "CHR ''['' \<notin> set lab" "CHR '']'' \<notin> set lab"
      using L' k(2) by auto
    show ?thesis
    proof (cases z)
      case False
      define K where "K = i @ ''|'' @ lab"
      have R': "R = ''[['' @ K @ '']]''" using r R False by (simp add: K_def)
      have K: "K \<noteq> []" "nl \<notin> set K" "CHR '']'' \<notin> set K"
        using i lab by (auto simp: K_def nl_def)
      have c: "replace_wiki_link z m K = Inr (''[['' @ K @ '']]'')"
        using replace_wiki_link_aliased[OF i(5) k(3), of z m] i(6) by (simp add: K_def)
      have "sub_wiki_links z m p (''[['' @ K @ '']]'' @ Y) = Inr (''[['' @ K @ '']]'' @ Y)"
        by (rule link[OF p K Y(1) c]) (use Y(2) in auto)
      then show ?thesis using R' by simp
    next
      case True
      define a where "a = ''['' @ lab @ '']('' "
      have R': "R = a @ (''[['' @ i @ '']]'' @ '')'' @ Y) \<Longrightarrow> True" by simp
      have Ra: "R @ Y = a @ ''[['' @ i @ '']]'' @ '')'' @ Y" using r R True by (simp add: a_def)
      have na: "no_link a (''[['' @ i @ '']]'' @ '')'' @ Y)"
      proof -
        have "no_link (lab @ '']('') (''[['' @ i @ '']]'' @ '')'' @ Y)"
          by (rule no_link_no_bracket) (use lab in auto)
        moreover have "\<not> prefix ''[['' (CHR ''['' # (lab @ '']('') @ ''[['' @ i @ '']]'' @ '')'' @ Y)"
          using lab(2) by (cases lab) auto
        ultimately show ?thesis by (simp add: a_def)
      qed
      have c: "replace_wiki_link z m i = Inr (''[['' @ i @ '']]'')"
        using i(5,6) by (simp add: replace_wiki_link_plain)
      have t: "sub_wiki_links z m (Some CHR '']'') ('')'' @ Y) = Inr ('')'' @ Y)"
        using sub_hop[of "'')''" Y z m "Some CHR '']''"] Y(2)[of "Some CHR '')''"] by simp
      have "sub_wiki_links z m (Some CHR ''('') (''[['' @ i @ '']]'' @ '')'' @ Y)
          = Inr (''[['' @ i @ '']]'' @ '')'' @ Y)"
        by (rule link[OF _ i(1,2,4) _ c t]) simp_all
      moreover have "a \<noteq> []" "last a = CHR ''(''" by (simp_all add: a_def)
      ultimately have "sub_wiki_links z m p (a @ ''[['' @ i @ '']]'' @ '')'' @ Y)
          = Inr (a @ ''[['' @ i @ '']]'' @ '')'' @ Y)"
        using sub_hop[OF na, of z m p] by simp
      then show ?thesis using Ra by simp
    qed
  qed
qed

lemma sub_rewritten:
  "well_formed z m es final \<Longrightarrow> stable_ids m es \<Longrightarrow> prev \<noteq> Some CHR ''!'' \<Longrightarrow>
   sub_wiki_links z m prev (rewritten z m es final) = Inr (rewritten z m es final)"
proof (induction es arbitrary: prev)
  case Nil
  then have "no_link final []" by (simp add: plain_no_link)
  from sub_hop[OF this, of z m prev] show ?case by simp
next
  case (Cons e es)
  obtain t it where e: "e = (t, it)" by (cases e)
  define Y where "Y = rewritten z m es final"
  show ?case
  proof (cases it)
    case (Link L)
    have wf: "plain t" "\<not> ends_with CHR ''['' t" "\<not> ends_with CHR ''!'' t" "link_text L"
      "\<not> prefix ''('' (next_text es final)"
      "case m (title_of L) of None \<Rightarrow> True | Some i \<Rightarrow> \<not> has_embed i"
      "well_formed z m es final"
      using Cons.prems(1) e Link by auto
    have ids: "case m (title_of L) of None \<Rightarrow> True
              | Some i \<Rightarrow> i \<noteq> [] \<and> m i = None \<and> nl \<notin> set i \<and> CHR ''['' \<notin> set i
                   \<and> CHR '']'' \<notin> set i \<and> CHR ''|'' \<notin> set i"
      "stable_ids m es"
      using Cons.prems(2) e Link by auto
    from link_result[where m = m and z = z and L = L, OF wf(4,6)] obtain R where
      R: "replace_wiki_link z m L = Inr R" by blast
    have ih: "sub_wiki_links z m q Y = Inr Y" if "q \<noteq> Some CHR ''!''" for q
      unfolding Y_def by (rule Cons.IH[OF wf(7) ids(2) that])
    have Y: "\<not> prefix ''('' Y" unfolding Y_def by (rule next_text_rewritten[OF wf(7,5)])
    have t: "no_link t (R @ Y)" using wf(1,2) by (simp add: plain_no_link)
    define p where "p = (if t = [] then prev else Some (last t))"
    have p: "p \<noteq> Some CHR ''!''" using wf(3) Cons.prems(3) by (auto simp: p_def ends_with_def)
    have "sub_wiki_links z m p (R @ Y) = Inr (R @ Y)"
      by (rule sub_link_stable[OF wf(4) ids(1) R p Y ih])
    then have "sub_wiki_links z m prev (t @ R @ Y) = Inr (t @ R @ Y)"
      using sub_hop[OF t, of z m prev] by (simp add: p_def)
    then show ?thesis using e Link R by (simp add: Y_def)
  next
    case (Embed X)
    have wf: "plain t" "embed_name X" "well_formed z m es final"
      using Cons.prems(1) e Embed by auto
    have ids: "stable_ids m es" using Cons.prems(2) e Embed by simp
    have X: "CHR ''['' \<notin> set X" using wf(2) by (simp add: embed_name_def)
    have ih: "sub_wiki_links z m q Y = Inr Y" if "q \<noteq> Some CHR ''!''" for q
      unfolding Y_def by (rule Cons.IH[OF wf(3) ids that])
    show ?thesis
    proof (cases "jpg_name X \<or> png_name X")
      case True
      define a where "a = t @ ''![]('' @ X @ '')''"
      have "no_link (''![]('' @ X @ '')'') Y"
        using no_link_no_bracket[of "X @ '')''" Y] X by simp
      moreover have "no_link t ((''![]('' @ X @ '')'') @ Y)" using wf(1) by (simp add: plain_no_link)
      ultimately have "no_link a Y" unfolding a_def by (rule no_link_append[rotated])
      moreover have "a \<noteq> []" "last a = CHR '')''" by (simp_all add: a_def)
      ultimately have "sub_wiki_links z m prev (a @ Y) = Inr (a @ Y)"
        using sub_hop[of a Y z m prev] ih[of "Some CHR '')''"] by simp
      then show ?thesis using e Embed True by (simp add: Y_def a_def)
    next
      case False
      have t: "no_link t (''![['' @ X @ '']]'' @ Y)" using wf(1) by (simp add: plain_no_link)
      have "sub_wiki_links z m p (''![['' @ X @ '']]'' @ Y) = Inr (''![['' @ X @ '']]'' @ Y)" for p
        using sub_embed[OF X, of z m p Y] ih[of "Some CHR '']''"] by simp
      then have "sub_wiki_links z m prev (t @ ''![['' @ X @ '']]'' @ Y)
          = Inr (t @ ''![['' @ X @ '']]'' @ Y)"
        using sub_hop[OF t, of z m prev] by simp
      then show ?thesis using e Embed False by (simp add: Y_def)
    qed
  qed
qed

lemma rewriter_idempotent_on_document:
  assumes "well_formed z m es final" "stable_ids m es"
  shows "replace_wiki_links z m (rewritten z m es final) = Inr (rewritten z m es final)"
  using sub_rewritten[OF assms, of None] image_matches_rewritten[OF assms(1)]
  by (simp add: replace_wiki_links_def image_pass_def)

lemma render_append:
  "render (es1 @ es2) final = render es1 [] @ render es2 final"
  by (induction es1) auto

lemma rewritten_append:
  "rewritten z m (es1 @ es2) final = rewritten z m es1 [] @ rewritten z m es2 final"
  by (induction es1) auto




text \<open>
  C4. The claim: every reference whose title is not a key of the map is left byte-identical
  in the rewritten body. The callback returns such a reference as it is, but when an embed
  that is not an image stands before a reference to an image file on the same line, the
  image pattern matches from the embed to the end of the reference, and the loop rewrites
  the whole span.
\<close>

theorem ghost_link_after_embed_rewritten:
  "replace_wiki_links False Map.empty ''![[Overview]] see [[diagram.png]]''
     = Inr ''![](Overview]] see [[diagram.png)''"
  by (simp add: replace_wiki_links_def image_pass_def match_wiki_link_def match_image_def
      follows_jpg_def follows_png_def nl_def closes_link_def replace_wiki_link_def
      replace_image_def py_replace.simps)

text \<open>
  C5. The claim: every image embed \<open>![[name.ext]]\<close> with \<open>ext\<close> one of jpg, jpeg, png in any
  letter case becomes \<open>![](name.ext)\<close>. The pattern is matched case-sensitively: an embed
  with an upper-case extension is left as it is.
\<close>

theorem image_embed_upper_case_kept:
  "replace_wiki_links False Map.empty ''![[photo.PNG]]'' = Inr ''![[photo.PNG]]''"
  by (simp add: replace_wiki_links_def image_pass_def match_wiki_link_def match_image_def
      follows_jpg_def follows_png_def nl_def)

text \<open>
  C5, as amended. In a well-formed document, whatever the map, an embed whose name ends
  with \<open>.jpg\<close>, \<open>.jpeg\<close> or \<open>.png\<close> in lower case becomes \<open>![](name)\<close> in place, and any
  other embed is kept as it is.
\<close>

theorem image_embed_rewritten:
  assumes "well_formed z m (es1 @ (t, Embed X) # es2) final"
  shows "replace_wiki_links z m (render es1 [] @ t @ ''![['' @ X @ '']]'' @ render es2 final) =
           Inr (rewritten z m es1 [] @ t
                @ (if jpg_name X \<or> png_name X then ''![]('' @ X @ '')''
                   else ''![['' @ X @ '']]'')
                @ rewritten z m es2 final)"
  using rewriter_on_document[OF assms] by (simp add: render_append rewritten_append)

theorem image_embed_rewritten_witness:
  "replace_wiki_links False [''Alpha'' \<mapsto> ''20240101000001'']
     ''[[Alpha]] ![[photo.png]] and ![[scan.JPEG]], [[Beta]]''
     = Inr ''[[20240101000001|Alpha]] ![](photo.png) and ![[scan.JPEG]], [[Beta]]''"
  using image_embed_rewritten[where m = "[''Alpha'' \<mapsto> ''20240101000001'']" and z = False
      and ?es1.0 = "[([], Link ''Alpha'')]" and t = "'' ''" and X = "''photo.png''"
      and ?es2.0 = "[('' and '', Embed ''scan.JPEG''), ('', '', Link ''Beta'')]" and final = "[]"]
  by (simp add: nl_def link_text_def embed_name_def jpg_name_def png_name_def has_ext_def
      ends_with_def title_of_def replace_wiki_link_def follows_jpg_def follows_png_def)

text \<open>
  C6. The claim: a second run of the Reference Rewriter with the same map leaves the output
  of the first unchanged. When the identifier of one title is itself a title of the map, the
  second run takes the identifier for a title and rewrites the converted reference again.
  And when a reference holds an image embed, the first run ends the reference at the end of
  the embed and converts the embed, and the second run finds a longer reference, whose title
  may be a key.
\<close>

theorem rewriter_second_pass_differs:
  "replace_wiki_links False [''A'' \<mapsto> ''B'', ''B'' \<mapsto> ''C''] ''[[A]]'' = Inr ''[[B|A]]''
   \<and> replace_wiki_links False [''A'' \<mapsto> ''B'', ''B'' \<mapsto> ''C''] ''[[B|A]]'' = Inr ''[[C|A]]''
   \<and> replace_wiki_links False [''a ![](x.png)'' \<mapsto> ''7''] ''[[a ![[x.png]]]]''
       = Inr ''[[a ![](x.png)]]''
   \<and> replace_wiki_links False [''a ![](x.png)'' \<mapsto> ''7''] ''[[a ![](x.png)]]''
       = Inr ''[[7|a ![](x.png)]]''"
  by (simp add: replace_wiki_links_def image_pass_def match_wiki_link_def match_image_def
      nl_def closes_link_def replace_wiki_link_def py_strip_def py_lstrip_def py_rstrip_def
      py_isspace_def follows_jpg_def follows_png_def replace_image_def py_replace.simps)

text \<open>
  C6, as amended. The first run on a well-formed document gives the rewritten document,
  with every reference replaced by the callback's result and every image embed converted;
  when the identifiers of its titles are stable, a second run with the same map leaves that
  output unchanged, in both output conventions.
\<close>

theorem rewriter_idempotent:
  assumes "well_formed z m es final" "stable_ids m es"
  shows "replace_wiki_links z m (render es final) = Inr (rewritten z m es final)
       \<and> replace_wiki_links z m (rewritten z m es final) = Inr (rewritten z m es final)"
  using rewriter_on_document[OF assms(1)] rewriter_idempotent_on_document[OF assms] by simp

theorem rewriter_idempotent_witness:
  "replace_wiki_links True [''Alpha'' \<mapsto> ''20240101000001'']
     ''see ![[photo.png]] and [[Alpha]], [[Beta|B]] or ![[Notes]].''
     = Inr ''see ![](photo.png) and [Alpha]([[20240101000001]]), [[Beta|B]] or ![[Notes]].''
   \<and> replace_wiki_links True [''Alpha'' \<mapsto> ''20240101000001'']
     ''see ![](photo.png) and [Alpha]([[20240101000001]]), [[Beta|B]] or ![[Notes]].''
     = Inr ''see ![](photo.png) and [Alpha]([[20240101000001]]), [[Beta|B]] or ![[Notes]].''"
  using rewriter_idempotent[where m = "[''Alpha'' \<mapsto> ''20240101000001'']" and z = True
      and es = "[(''see '', Embed ''photo.png''), ('' and '', Link ''Alpha''),
                 ('', '', Link ''Beta|B''), ('' or '', Embed ''Notes'')]" and final = "''.''"]
  by (simp add: nl_def link_text_def embed_name_def jpg_name_def png_name_def has_ext_def
      ends_with_def title_of_def replace_wiki_link_def follows_jpg_def follows_png_def)

text \<open>
  C8. The claim: the Reference Rewriter completes on every body and map without an
  exception escaping. On the body \<open>[[a|b|c]]\<close> the split of the link text has three
  parts, and the unpacking into title and alias raises \<open>ValueError\<close>.
\<close>

theorem replace_wiki_links_two_pipes_raises:
  "replace_wiki_links False Map.empty ''[[a|b|c]]'' = Inl ValueError"
  by (simp add: replace_wiki_links_def match_wiki_link_def closes_link_def
      replace_wiki_link_def nl_def)


section \<open>Header Normalizer: \<open>_normalize_key\<close>, \<open>_normalize_value\<close>\<close>

text \<open>\<open>str.lower\<close> on the code points below 256: A to Z and the accented capitals.\<close>

definition py_lower_char :: "char \<Rightarrow> char" where
  "py_lower_char c =
     (let n = (of_char c :: nat)
      in if (65 \<le> n \<and> n \<le> 90) \<or> (192 \<le> n \<and> n \<le> 214) \<or> (216 \<le> n \<and> n \<le> 222)
         then char_of (n + 32) else c)"

definition py_lower :: "string \<Rightarrow> string" where
  "py_lower s = map py_lower_char s"

text \<open>\<open>_normalize_key\<close>: \<open>key.strip().lower().replace(" ", "_")\<close>.\<close>

definition normalize_key :: "string \<Rightarrow> string" where
  "normalize_key key = py_replace '' '' ''_'' (py_lower (py_strip key))"

text \<open>
  A header value as \<open>yaml.safe_load\<close> returns it: \<open>None\<close>, a \<open>str\<close>, a list, a \<open>dict\<close>, or
  another scalar (int, float, bool, date), kept by its printed form. \<open>YQuoted\<close> is a
  \<open>_QuotedStr\<close>, the subclass of \<open>str\<close> the normalizer returns. Keys are strings, as in the
  claim, so that \<open>str(k)\<close> is \<open>k\<close>. A \<open>dict\<close> is the list of its items in insertion
  order; assigning to a key that is present replaces its value and keeps its place.
\<close>

datatype yaml = YNull | YStr string | YQuoted string | YOther string
  | YList "yaml list" | YMap "(string \<times> yaml) list"

fun dict_set :: "(string \<times> 'v) list \<Rightarrow> string \<Rightarrow> 'v \<Rightarrow> (string \<times> 'v) list" where
  "dict_set [] k v = [(k, v)]"
| "dict_set ((k', v') # d) k v =
     (if k' = k then (k, v) # d else (k', v') # dict_set d k v)"

definition dict_of_items :: "(string \<times> 'v) list \<Rightarrow> (string \<times> 'v) list" where
  "dict_of_items items = foldl (\<lambda>d (k, v). dict_set d k v) [] items"

fun normalize_value :: "yaml \<Rightarrow> yaml" where
  "normalize_value YNull = YList []"
| "normalize_value (YStr val) =
     (let s = py_strip val in if s = [] then YList [] else YQuoted s)"
| "normalize_value (YQuoted val) =
     (let s = py_strip val in if s = [] then YList [] else YQuoted s)"
| "normalize_value (YList vs) = YList (map normalize_value vs)"
| "normalize_value (YMap kvs) =
     YMap (dict_of_items (map (\<lambda>kv. (normalize_key (fst kv), normalize_value (snd kv))) kvs))"
| "normalize_value (YOther v) = YOther v"

text \<open>The loop of \<open>reformat_yaml_front_matter_in_file\<close> over the items of the header.\<close>

definition normalize_header :: "(string \<times> yaml) list \<Rightarrow> (string \<times> yaml) list" where
  "normalize_header data =
     dict_of_items (map (\<lambda>kv. (normalize_key (fst kv), normalize_value (snd kv))) data)"


text \<open>What a reload of the written header yields: the marker type is lost.\<close>

fun unquote :: "yaml \<Rightarrow> yaml" where
  "unquote YNull = YNull"
| "unquote (YStr s) = YStr s"
| "unquote (YQuoted s) = YStr s"
| "unquote (YOther x) = YOther x"
| "unquote (YList vs) = YList (map unquote vs)"
| "unquote (YMap kvs) = YMap (map (\<lambda>kv. (fst kv, unquote (snd kv))) kvs)"


section \<open>Properties of the Header Normalizer\<close>

lemma py_replace_char:
  "py_replace [a] [b] s = map (\<lambda>c. if c = a then b else c) s"
proof (induction s)
  case Nil
  then show ?case by simp
next
  case (Cons c s)
  show ?case
  proof (cases "c = a")
    case True
    then show ?thesis using Cons py_replace_hit[of "[a]" "c # s" "[b]"] by simp
  next
    case False
    then show ?thesis using Cons py_replace_miss[of "[a]" c s "[b]"] by simp
  qed
qed

definition stripped :: "string \<Rightarrow> bool" where
  "stripped s = (s = [] \<or> (\<not> py_isspace (hd s) \<and> \<not> py_isspace (last s)))"

lemma py_lstrip_hd: "py_lstrip s = [] \<or> \<not> py_isspace (hd (py_lstrip s))"
  unfolding py_lstrip_def using hd_dropWhile by blast

lemma py_rstrip_prefix: "\<exists>w. s = py_rstrip s @ w"
proof -
  have "rev s = takeWhile py_isspace (rev s) @ dropWhile py_isspace (rev s)" by simp
  then have "s = rev (dropWhile py_isspace (rev s)) @ rev (takeWhile py_isspace (rev s))"
    by (metis rev_append rev_rev_ident)
  then show ?thesis unfolding py_rstrip_def by blast
qed

lemma py_rstrip_last: "py_rstrip s = [] \<or> \<not> py_isspace (last (py_rstrip s))"
proof (cases "dropWhile py_isspace (rev s) = []")
  case True
  then show ?thesis by (simp add: py_rstrip_def)
next
  case False
  then have "\<not> py_isspace (hd (dropWhile py_isspace (rev s)))" using hd_dropWhile by blast
  then show ?thesis using False by (simp add: py_rstrip_def last_rev)
qed

lemma stripped_py_strip: "stripped (py_strip s)"
proof (cases "py_strip s = []")
  case True
  then show ?thesis by (simp add: stripped_def)
next
  case False
  obtain w where w: "py_lstrip s = py_strip s @ w"
    using py_rstrip_prefix[of "py_lstrip s"] by (auto simp: py_strip_def)
  then have "hd (py_strip s) = hd (py_lstrip s)" using False by (cases "py_strip s") auto
  moreover have "py_lstrip s \<noteq> []" using w False by auto
  ultimately have "\<not> py_isspace (hd (py_strip s))" using py_lstrip_hd[of s] by auto
  moreover have "\<not> py_isspace (last (py_strip s))"
    using py_rstrip_last[of "py_lstrip s"] False by (auto simp: py_strip_def)
  ultimately show ?thesis by (simp add: stripped_def)
qed

lemma py_strip_stripped: "stripped s \<Longrightarrow> py_strip s = s"
proof (cases s)
  case Nil
  then show ?thesis by (simp add: py_strip_def py_lstrip_def py_rstrip_def)
next
  case (Cons c cs)
  assume "stripped s"
  then have h: "\<not> py_isspace (hd s)" and l: "\<not> py_isspace (last s)"
    using Cons by (auto simp: stripped_def)
  have 1: "py_lstrip s = s" using h Cons by (simp add: py_lstrip_def)
  have "rev s \<noteq> []" using Cons by simp
  moreover have "hd (rev s) = last s" using Cons by (simp add: hd_rev)
  ultimately have "\<not> py_isspace (hd (rev s)) \<and> rev s \<noteq> []" using l by simp
  then have "dropWhile py_isspace (rev s) = rev s"
    by (metis dropWhile.simps(2) list.collapse)
  then have "py_rstrip s = s" by (simp add: py_rstrip_def)
  with 1 show ?thesis by (simp add: py_strip_def)
qed

lemma py_strip_idem: "py_strip (py_strip s) = py_strip s"
  by (rule py_strip_stripped) (rule stripped_py_strip)

definition key_char :: "char \<Rightarrow> char" where
  "key_char c = (if py_lower_char c = CHR '' '' then CHR ''_'' else py_lower_char c)"

lemma normalize_key_map: "normalize_key k = map key_char (py_strip k)"
  by (simp add: normalize_key_def py_replace_char py_lower_def key_char_def)

lemma of_char_lower:
  "(of_char (py_lower_char c) :: nat) =
     (let n = (of_char c :: nat)
      in if (65 \<le> n \<and> n \<le> 90) \<or> (192 \<le> n \<and> n \<le> 214) \<or> (216 \<le> n \<and> n \<le> 222)
         then n + 32 else n)"
  by (auto simp: py_lower_char_def Let_def)

lemma py_lower_char_idem: "py_lower_char (py_lower_char c) = py_lower_char c"
proof (rule of_char_eqI[where ?'a = nat])
  show "(of_char (py_lower_char (py_lower_char c)) :: nat) = of_char (py_lower_char c)"
    by (simp add: of_char_lower Let_def)
qed

lemma py_lower_char_space: "(py_lower_char c = CHR '' '') = (c = CHR '' '')"
proof
  assume "py_lower_char c = CHR '' ''"
  then have "(of_char (py_lower_char c) :: nat) = 32" by simp
  then have "(of_char c :: nat) = 32" unfolding of_char_lower by (auto simp: Let_def split: if_splits)
  then have "(of_char c :: nat) = of_char CHR '' ''" by simp
  then show "c = CHR '' ''" by (rule of_char_eqI)
next
  assume "c = CHR '' ''"
  then show "py_lower_char c = CHR '' ''" by (simp add: py_lower_char_def)
qed

lemma key_char_idem: "key_char (key_char c) = key_char c"
proof (cases "c = CHR '' ''")
  case True
  then show ?thesis by (simp add: key_char_def py_lower_char_def)
next
  case False
  then have "key_char c = py_lower_char c" by (simp add: key_char_def py_lower_char_space)
  moreover have "py_lower_char (py_lower_char c) \<noteq> CHR '' ''"
    using False by (simp add: py_lower_char_idem py_lower_char_space)
  ultimately show ?thesis by (simp add: key_char_def py_lower_char_idem)
qed

lemma key_char_isspace: "\<not> py_isspace c \<Longrightarrow> \<not> py_isspace (key_char c)"
proof -
  assume c: "\<not> py_isspace c"
  then have "c \<noteq> CHR '' ''" by (auto simp: py_isspace_def)
  then have "key_char c = py_lower_char c" by (simp add: key_char_def py_lower_char_space)
  moreover have "\<not> py_isspace (py_lower_char c)"
    using c unfolding py_isspace_def of_char_lower by (auto simp: Let_def)
  ultimately show ?thesis by simp
qed

lemma stripped_map_key_char: "stripped s \<Longrightarrow> stripped (map key_char s)"
  by (cases s) (auto simp: stripped_def key_char_isspace hd_map last_map)

lemma normalize_key_idem: "normalize_key (normalize_key k) = normalize_key k"
proof -
  have "py_strip (map key_char (py_strip k)) = map key_char (py_strip k)"
    by (rule py_strip_stripped) (rule stripped_map_key_char[OF stripped_py_strip])
  then show ?thesis by (simp add: normalize_key_map key_char_idem)
qed

lemma dict_set_fresh: "k \<notin> set (map fst d) \<Longrightarrow> dict_set d k v = d @ [(k, v)]"
  by (induction d) auto

lemma set_dict_set: "set (dict_set d k v) \<subseteq> insert (k, v) (set d)"
  by (induction d) (auto split: if_splits)

lemma map_fst_dict_set:
  "map fst (dict_set d k v) = (if k \<in> set (map fst d) then map fst d else map fst d @ [k])"
  by (induction d) (auto simp del: set_map)

lemma distinct_dict_set:
  "distinct (map fst d) \<Longrightarrow> distinct (map fst (dict_set d k v))"
  by (simp add: map_fst_dict_set del: set_map)

lemma foldl_dict_set_distinct:
  "distinct (map fst acc) \<Longrightarrow>
   distinct (map fst (foldl (\<lambda>d (k, v). dict_set d k v) acc xs))"
  by (induction xs arbitrary: acc) (auto simp: distinct_dict_set split: prod.splits)

lemma foldl_dict_set_subset:
  "set (foldl (\<lambda>d (k, v). dict_set d k v) acc xs) \<subseteq> set acc \<union> set xs"
proof (induction xs arbitrary: acc)
  case Nil
  then show ?case by simp
next
  case (Cons x xs)
  obtain k v where x: "x = (k, v)" by (cases x)
  have "set (foldl (\<lambda>d (k, v). dict_set d k v) (dict_set acc k v) xs)
          \<subseteq> set (dict_set acc k v) \<union> set xs" by (rule Cons.IH)
  then show ?case using set_dict_set[of acc k v] x by auto
qed

lemma foldl_dict_set_fresh:
  "distinct (map fst (acc @ xs)) \<Longrightarrow>
   foldl (\<lambda>d (k, v). dict_set d k v) acc xs = acc @ xs"
proof (induction xs arbitrary: acc)
  case Nil
  then show ?case by simp
next
  case (Cons x xs)
  obtain k v where x: "x = (k, v)" by (cases x)
  have "k \<notin> set (map fst acc)" using Cons.prems x by auto
  then have "dict_set acc k v = acc @ [(k, v)]" by (rule dict_set_fresh)
  moreover have "distinct (map fst ((acc @ [(k, v)]) @ xs))" using Cons.prems x by simp
  ultimately show ?case using Cons.IH[of "acc @ [(k, v)]"] x by simp
qed

lemma dict_of_items_distinct: "distinct (map fst (dict_of_items xs))"
  unfolding dict_of_items_def by (rule foldl_dict_set_distinct) simp

lemma dict_of_items_subset: "set (dict_of_items xs) \<subseteq> set xs"
  unfolding dict_of_items_def using foldl_dict_set_subset[of "[]" xs] by simp

lemma dict_of_items_fresh: "distinct (map fst xs) \<Longrightarrow> dict_of_items xs = xs"
  unfolding dict_of_items_def using foldl_dict_set_fresh[of "[]" xs] by simp

lemma normalize_items_idem:
  assumes "\<And>k v. (k, v) \<in> set kvs \<Longrightarrow> f (g (f v)) = f v"
  shows "dict_of_items (map (\<lambda>kv. (normalize_key (fst kv), f (snd kv)))
           (map (\<lambda>kv. (fst kv, g (snd kv)))
             (dict_of_items (map (\<lambda>kv. (normalize_key (fst kv), f (snd kv))) kvs))))
       = dict_of_items (map (\<lambda>kv. (normalize_key (fst kv), f (snd kv))) kvs)"
proof -
  define d where "d = dict_of_items (map (\<lambda>kv. (normalize_key (fst kv), f (snd kv))) kvs)"
  have fixed: "(normalize_key (fst e), f (g (snd e))) = e" if "e \<in> set d" for e
  proof -
    from that have "e \<in> set (map (\<lambda>kv. (normalize_key (fst kv), f (snd kv))) kvs)"
      using dict_of_items_subset unfolding d_def by blast
    then obtain k v where "(k, v) \<in> set kvs" "e = (normalize_key k, f v)" by auto
    then show ?thesis using assms[of k v] by (simp add: normalize_key_idem)
  qed
  have "map (\<lambda>kv. (normalize_key (fst kv), f (snd kv))) (map (\<lambda>kv. (fst kv, g (snd kv))) d) = d"
    using fixed by (simp add: map_idI)
  moreover have "dict_of_items d = d"
    by (rule dict_of_items_fresh) (simp add: d_def dict_of_items_distinct)
  ultimately show ?thesis unfolding d_def by simp
qed

lemma normalize_value_idem: "normalize_value (normalize_value v) = normalize_value v"
proof (induction v)
  case YNull
  then show ?case by simp
next
  case (YStr s)
  then show ?case by (simp add: Let_def py_strip_idem)
next
  case (YQuoted s)
  then show ?case by (simp add: Let_def py_strip_idem)
next
  case (YOther x)
  then show ?case by simp
next
  case (YList vs)
  then show ?case by simp
next
  case (YMap kvs)
  have "\<And>k v. (k, v) \<in> set kvs \<Longrightarrow> normalize_value (id (normalize_value v)) = normalize_value v"
    using YMap by fastforce
  from normalize_items_idem[of kvs normalize_value id, OF this]
  show ?case by simp
qed

lemma normalize_value_reloaded:
  "normalize_value (unquote (normalize_value v)) = normalize_value v"
proof (induction v)
  case YNull
  then show ?case by simp
next
  case (YStr s)
  then show ?case by (simp add: Let_def py_strip_idem)
next
  case (YQuoted s)
  then show ?case by (simp add: Let_def py_strip_idem)
next
  case (YOther x)
  then show ?case by simp
next
  case (YList vs)
  then show ?case by simp
next
  case (YMap kvs)
  have "\<And>k v. (k, v) \<in> set kvs \<Longrightarrow> normalize_value (unquote (normalize_value v)) = normalize_value v"
    using YMap by fastforce
  from normalize_items_idem[of kvs normalize_value unquote, OF this]
  show ?case by (simp add: comp_def)
qed


text \<open>
  C7. Applying the Header Normalizer twice yields the same header as applying it once: for
  a key, for a value of any nesting, and for the loop over a header. The same holds when
  the header is written and read back in between, which turns every \<open>_QuotedStr\<close> into a
  plain \<open>str\<close>.
\<close>

theorem normalize_idempotent:
  "normalize_key (normalize_key k) = normalize_key k
   \<and> normalize_value (normalize_value v) = normalize_value v
   \<and> normalize_header (normalize_header h) = normalize_header h
   \<and> normalize_value (unquote (normalize_value v)) = normalize_value v"
proof -
  have "normalize_header (normalize_header h) = normalize_header h"
    using normalize_items_idem[of h normalize_value id] normalize_value_idem
    by (simp add: normalize_header_def)
  then show ?thesis
    by (simp add: normalize_key_idem normalize_value_idem normalize_value_reloaded)
qed

section \<open>Header Codec: \<open>parse_yaml_front_matter\<close>\<close>

text \<open>
  The shortest text before the first occurrence of \<open>pat\<close>, and the text after it:
  \<open>(.*?)\<close> under \<open>re.DOTALL\<close> followed by a literal.
\<close>

fun split_at_first :: "string \<Rightarrow> string \<Rightarrow> (string \<times> string) option" where
  "split_at_first pat [] = (if pat = [] then Some ([], []) else None)"
| "split_at_first pat (c # s) =
     (if prefix pat (c # s) then Some ([], drop (length pat) (c # s))
      else map_option (\<lambda>(a, b). (c # a, b)) (split_at_first pat s))"

text \<open>
  \<open>\s*\n(.*?)\n---\<close> after the opening \<open>---\<close>: \<open>\s*\<close> is greedy, so the line feed that ends
  the opening line is the last one of the whitespace run for which the rest matches.
\<close>

fun open_delim :: "string \<Rightarrow> (string \<times> string) option" where
  "open_delim [] = None"
| "open_delim (c # s) =
     (if py_isspace c then
        (case open_delim s of
           Some r \<Rightarrow> Some r
         | None \<Rightarrow> if c = nl then split_at_first (nl # ''---'') s else None)
      else None)"

text \<open>
  \<open>re.match(r"^---\s*\n(.*?)\n---\s*\n?(.*)", content, re.DOTALL)\<close>: groups 1 and 2. After
  the closing \<open>---\<close>, \<open>\s*\<close> takes all the whitespace, \<open>\n?\<close> is then empty and group 2 is
  the rest.
\<close>

definition front_matter_match :: "string \<Rightarrow> (string \<times> string) option" where
  "front_matter_match content =
     (if prefix ''---'' content then
        map_option (\<lambda>(fm, rest). (fm, dropWhile py_isspace rest)) (open_delim (drop 3 content))
      else None)"

text \<open>
  \<open>yaml.safe_load\<close> belongs to the PyYAML library, not to the repository: it is the
  parameter \<open>load\<close>, which returns the value or raises.
\<close>

definition parse_yaml_front_matter ::
  "(string \<Rightarrow> py_error + yaml) \<Rightarrow> string \<Rightarrow> py_error + (yaml \<times> string)" where
  "parse_yaml_front_matter load content =
     (case front_matter_match content of
        None \<Rightarrow> Inr (YMap [], content)
      | Some (front_matter, body) \<Rightarrow>
          (case load front_matter of
             Inl e \<Rightarrow> Inl e
           | Inr data \<Rightarrow> Inr (if data = YNull then YMap [] else data, body)))"


section \<open>File selection: \<open>filter_files\<close>\<close>

text \<open>\<open>\w\<close> on the code points below 256.\<close>

definition py_isword :: "char \<Rightarrow> bool" where
  "py_isword c =
     (let n = (of_char c :: nat)
      in (48 \<le> n \<and> n \<le> 57) \<or> (65 \<le> n \<and> n \<le> 90) \<or> n = 95 \<or> (97 \<le> n \<and> n \<le> 122)
         \<or> n \<in> {170, 178, 179, 181, 185, 186, 188, 189, 190}
         \<or> (192 \<le> n \<and> n \<le> 214) \<or> (216 \<le> n \<and> n \<le> 246) \<or> 248 \<le> n)"

text \<open>\<open>re.findall(r"#(\w+)", content)\<close>.\<close>

function findall_tags :: "string \<Rightarrow> string list" where
  "findall_tags [] = []"
| "findall_tags (c # s) =
     (if c = CHR ''#'' \<and> takeWhile py_isword s \<noteq> []
      then takeWhile py_isword s # findall_tags (dropWhile py_isword s)
      else findall_tags s)"
  by pat_completeness auto
termination
  by (relation "measure length") (auto simp: length_dropWhile_le less_Suc_eq_le)

text \<open>\<open>s.split()\<close>: the runs of characters that are not whitespace.\<close>

function py_split_ws :: "string \<Rightarrow> string list" where
  "py_split_ws s =
     (let s' = dropWhile py_isspace s
      in if s' = [] then []
         else takeWhile (\<lambda>c. \<not> py_isspace c) s'
              # py_split_ws (dropWhile (\<lambda>c. \<not> py_isspace c) s'))"
  by pat_completeness auto
termination
proof (relation "measure length")
  fix s s' :: string
  assume s': "s' = dropWhile py_isspace s" "s' \<noteq> []"
  then have "\<not> py_isspace (hd s')" using hd_dropWhile by blast
  then have "length (dropWhile (\<lambda>c. \<not> py_isspace c) s') < length s'"
    using s'(2) by (cases s') (auto simp: length_dropWhile_le less_Suc_eq_le)
  moreover have "length s' \<le> length s" using s'(1) by (simp add: length_dropWhile_le)
  ultimately show "(dropWhile (\<lambda>c. \<not> py_isspace c) s', s) \<in> measure length" by simp
qed simp

declare py_split_ws.simps [simp del]

text \<open>\<open>os.path.join(root, file)\<close> and the files on disk, by path.\<close>

definition path_join :: "string \<Rightarrow> string \<Rightarrow> string" where
  "path_join root file =
     (if prefix ''/'' file then file
      else if root = [] \<or> suffix ''/'' root then root @ file
      else root @ ''/'' @ file)"

definition read_file :: "(string \<rightharpoonup> string) \<Rightarrow> string \<Rightarrow> py_error + string" where
  "read_file fs path = (case fs path of None \<Rightarrow> Inl OSError | Some content \<Rightarrow> Inr content)"

text \<open>
  The operations on the decoded front matter, which is whatever YAML document the header
  holds. \<open>dict.get\<close> exists on a mapping only; \<open>set(yaml_tags)\<close> needs an iterable of
  hashable members, and only its strings can equal a filter tag; \<open>"type" in front_matter\<close>
  is a key test on a mapping, a member test on a list and a substring test on a string;
  \<open>front_matter["type"]\<close> indexes a mapping only.
\<close>

definition yaml_get :: "yaml \<Rightarrow> string \<Rightarrow> yaml \<Rightarrow> py_error + yaml" where
  "yaml_get d key dflt =
     (case d of
        YMap kvs \<Rightarrow> Inr (case map_of kvs key of None \<Rightarrow> dflt | Some v \<Rightarrow> v)
      | _ \<Rightarrow> Inl AttributeError)"

fun hashable :: "yaml \<Rightarrow> bool" where
  "hashable (YList vs) = False"
| "hashable (YMap kvs) = False"
| "hashable v = True"

fun str_value :: "yaml \<Rightarrow> string option" where
  "str_value (YStr s) = Some s"
| "str_value (YQuoted s) = Some s"
| "str_value v = None"

fun tag_strings :: "yaml \<Rightarrow> py_error + string list" where
  "tag_strings (YStr s) = Inr [s]"
| "tag_strings (YQuoted s) = Inr [s]"
| "tag_strings (YList vs) =
     (if list_all hashable vs then Inr (List.map_filter str_value vs) else Inl TypeError)"
| "tag_strings (YMap kvs) = Inr (map fst kvs)"
| "tag_strings v = Inl TypeError"

fun is_substring :: "string \<Rightarrow> string \<Rightarrow> bool" where
  "is_substring pat [] = (pat = [])"
| "is_substring pat (c # s) = (prefix pat (c # s) \<or> is_substring pat s)"

fun has_key :: "string \<Rightarrow> yaml \<Rightarrow> py_error + bool" where
  "has_key key (YMap kvs) = Inr (key \<in> set (map fst kvs))"
| "has_key key (YList vs) = Inr (Some key \<in> set (map str_value vs))"
| "has_key key (YStr s) = Inr (is_substring key s)"
| "has_key key (YQuoted s) = Inr (is_substring key s)"
| "has_key key v = Inl TypeError"

definition get_item :: "yaml \<Rightarrow> string \<Rightarrow> py_error + yaml" where
  "get_item d key =
     (case d of
        YMap kvs \<Rightarrow> (case map_of kvs key of None \<Rightarrow> Inl KeyError | Some v \<Rightarrow> Inr v)
      | _ \<Rightarrow> Inl TypeError)"

text \<open>The truth value of an option of the command line: \<open>None\<close> and \<open>""\<close> are false.\<close>

definition truthy :: "string option \<Rightarrow> bool" where
  "truthy opt = (opt \<noteq> None \<and> opt \<noteq> Some [])"

text \<open>
  The body of the loop for a file whose name ends with \<open>.md\<close>: whether the file is
  appended, or the exception that ends the call.
\<close>

definition tags_satisfied ::
  "yaml \<Rightarrow> string \<Rightarrow> string \<Rightarrow> py_error + bool" where
  "tags_satisfied front_matter content tags =
     (case yaml_get front_matter ''tags'' (YList []) of
        Inl e \<Rightarrow> Inl e
      | Inr yaml_tags \<Rightarrow>
          (case tag_strings yaml_tags of
             Inl e \<Rightarrow> Inl e
           | Inr file_tags \<Rightarrow>
               Inr (set (if CHR '' '' \<in> set tags then py_split_ws tags else [tags])
                      \<subseteq> set file_tags \<union> set (findall_tags content))))"

definition type_satisfied :: "yaml \<Rightarrow> string \<Rightarrow> py_error + bool" where
  "type_satisfied front_matter type =
     (case has_key ''type'' front_matter of
        Inl e \<Rightarrow> Inl e
      | Inr False \<Rightarrow> Inr False
      | Inr True \<Rightarrow>
          (case get_item front_matter ''type'' of
             Inl e \<Rightarrow> Inl e
           | Inr v \<Rightarrow> Inr (str_value v = Some type)))"

definition md_selected ::
  "(string \<Rightarrow> py_error + yaml) \<Rightarrow> (string \<rightharpoonup> string) \<Rightarrow> string \<Rightarrow> string
   \<Rightarrow> string option \<Rightarrow> string option \<Rightarrow> py_error + bool" where
  "md_selected load fs root file type tags =
     (case read_file fs (path_join root file) of
        Inl e \<Rightarrow> Inl e
      | Inr content \<Rightarrow>
          (case parse_yaml_front_matter load content of
             Inl e \<Rightarrow> Inl e
           | Inr (front_matter, body) \<Rightarrow>
               (case (if truthy tags then tags_satisfied front_matter content (the tags)
                      else Inr True) of
                  Inl e \<Rightarrow> Inl e
                | Inr False \<Rightarrow> Inr False
                | Inr True \<Rightarrow>
                    if truthy type then type_satisfied front_matter (the type) else Inr True)))"

definition is_image :: "string \<Rightarrow> bool" where
  "is_image file = (suffix ''.jpg'' file \<or> suffix ''.jpeg'' file \<or> suffix ''.png'' file)"

fun filter_files ::
  "(string \<Rightarrow> py_error + yaml) \<Rightarrow> (string \<rightharpoonup> string) \<Rightarrow> string \<Rightarrow> string list
   \<Rightarrow> string option \<Rightarrow> string option \<Rightarrow> py_error + string list" where
  "filter_files load fs root [] type tags = Inr []"
| "filter_files load fs root (file # files) type tags =
     (case (if suffix ''.md'' file then md_selected load fs root file type tags else Inr False) of
        Inl e \<Rightarrow> Inl e
      | Inr md \<Rightarrow>
          (case filter_files load fs root files type tags of
             Inl e \<Rightarrow> Inl e
           | Inr rest \<Rightarrow>
               Inr ((if md then [file] else []) @ (if is_image file then [file] else []) @ rest)))"


section \<open>Properties of the file selection\<close>

lemma suffix_last: "suffix xs ys \<Longrightarrow> xs \<noteq> [] \<Longrightarrow> last ys = last xs"
  by (auto simp: suffix_def)

lemma md_not_image: "suffix ''.md'' f \<Longrightarrow> \<not> is_image f"
  unfolding is_image_def
  using suffix_last[of "''.md''" f] suffix_last[of "''.jpg''" f] suffix_last[of "''.jpeg''" f]
    suffix_last[of "''.png''" f]
  by auto

text \<open>
  C10. The claim: for every list of files, every file ending with \<open>.jpg\<close>, \<open>.jpeg\<close> or
  \<open>.png\<close> is selected, whatever the type and tags options are. The test of a file ending
  with \<open>.md\<close> may raise, and the call then returns no list at all: with a tags option, a
  header whose \<open>tags\<close> field is empty decodes to \<open>None\<close>, and \<open>set(None)\<close> raises
  \<open>TypeError\<close>.
\<close>

theorem filter_files_empty_tags_raises:
  "filter_files (\<lambda>s. Inr (YMap [(''tags'', YNull)]))
     [''in/a.md'' \<mapsto> ''---\<newline>tags:\<newline>---\<newline>text'']
     ''in'' [''a.md'', ''b.png''] None (Some ''x'') = Inl TypeError"
  by code_simp

text \<open>
  C10, as amended. When the test of no file ending with \<open>.md\<close> raises, \<open>filter_files\<close>
  returns the files that are images, together with the \<open>.md\<close> files that pass the type and
  tags tests, in the order of the input: every file ending with \<open>.jpg\<close>, \<open>.jpeg\<close> or \<open>.png\<close>
  is selected whatever the type and tags options are, since these are consulted for \<open>.md\<close>
  files only.
\<close>

theorem filter_files_images:
  assumes "\<forall>f \<in> set files. suffix ''.md'' f \<longrightarrow>
             (\<exists>b. md_selected load fs root f type tags = Inr b)"
  shows "filter_files load fs root files type tags =
           Inr (filter (\<lambda>f. is_image f \<or>
                  (suffix ''.md'' f \<and> md_selected load fs root f type tags = Inr True)) files)
       \<and> (\<exists>sel. filter_files load fs root files type tags = Inr sel
             \<and> filter is_image sel = filter is_image files
             \<and> (\<forall>f \<in> set files. is_image f \<longrightarrow> f \<in> set sel))"
proof -
  have 1: "filter_files load fs root files type tags =
           Inr (filter (\<lambda>f. is_image f \<or>
                  (suffix ''.md'' f \<and> md_selected load fs root f type tags = Inr True)) files)"
    using assms
  proof (induction files)
    case Nil
    then show ?case by simp
  next
    case (Cons f files)
    show ?case
    proof (cases "suffix ''.md'' f")
      case True
      then obtain b where "md_selected load fs root f type tags = Inr b"
        using Cons.prems by auto
      then show ?thesis using True Cons md_not_image[OF True] by simp
    next
      case False
      then show ?thesis using Cons by simp
    qed
  qed
  have 2: "filter is_image (filter (\<lambda>f. is_image f \<or>
                  (suffix ''.md'' f \<and> md_selected load fs root f type tags = Inr True)) files)
           = filter is_image files"
    by (induction files) auto
  show ?thesis using 1 2 by auto
qed

theorem filter_files_images_witness:
  "filter_files (\<lambda>s. Inl YAMLError) [''in/a.md'' \<mapsto> ''hello''] ''in'' [''a.md'', ''b.png'']
     (Some ''article'') None = Inr [''b.png'']"
proof -
  have "\<forall>f \<in> set [''a.md'', ''b.png'']. suffix ''.md'' f \<longrightarrow>
     (\<exists>b. md_selected (\<lambda>s. Inl YAMLError) [''in/a.md'' \<mapsto> ''hello''] ''in'' f (Some ''article'') None
           = Inr b)"
    by (auto simp: md_selected_def read_file_def path_join_def parse_yaml_front_matter_def
        front_matter_match_def truthy_def type_satisfied_def suffix_def)
  from filter_files_images[OF this] show ?thesis
    by (simp add: md_selected_def read_file_def path_join_def parse_yaml_front_matter_def
        front_matter_match_def truthy_def type_satisfied_def is_image_def suffix_def)
qed

section \<open>Typed-Link Recoder: \<open>transform_typed_links\<close>\<close>

text \<open>
  \<open>.*?\<close> followed by the rest of a pattern: as \<open>dots_lazy\<close>, but the run may be empty.
  \<open>any_lazy\<close> is the same under \<open>re.DOTALL\<close>, where the line feed is taken too.
\<close>

definition dots0_lazy :: "(string \<Rightarrow> bool) \<Rightarrow> string \<Rightarrow> (string \<times> string) option" where
  "dots0_lazy follows s = (if follows s then Some ([], s) else dots_lazy follows s)"

fun any_lazy :: "(string \<Rightarrow> bool) \<Rightarrow> string \<Rightarrow> (string \<times> string) option" where
  "any_lazy follows [] = (if follows [] then Some ([], []) else None)"
| "any_lazy follows (c # cs) =
     (if follows (c # cs) then Some ([], c # cs)
      else map_option (\<lambda>(t, r). (c # t, r)) (any_lazy follows cs))"

text \<open>
  \<open>- (.*?) \[\[(.*?)\]\]\<close> tried at the head of \<open>s\<close>: groups 1 and 2 and the text after the
  match. The first group ends at the first \<open> [[\<close> after which the rest of the pattern
  matches.
\<close>

definition closes_typed :: "string \<Rightarrow> (string \<times> string) option" where
  "closes_typed r = dots0_lazy (prefix '']]'') r"

definition match_typed_link :: "string \<Rightarrow> (string \<times> string \<times> string) option" where
  "match_typed_link s =
     (if prefix ''- '' s then
        (case dots0_lazy (\<lambda>r. prefix '' [['' r \<and> closes_typed (drop 3 r) \<noteq> None) (drop 2 s) of
           Some (g1, r) \<Rightarrow>
             (case closes_typed (drop 3 r) of
                Some (g2, r2) \<Rightarrow> Some (g1, g2, drop 2 r2)
              | None \<Rightarrow> None)
         | None \<Rightarrow> None)
      else None)"

lemma dots0_lazy_shorter:
  "dots0_lazy follows s = Some (t, r) \<Longrightarrow> length r \<le> length s"
  by (auto simp: dots0_lazy_def split: if_splits dest: dots_lazy_shorter)

lemma match_typed_link_shorter:
  "match_typed_link s = Some (g1, g2, r) \<Longrightarrow> length r < length s"
  by (auto simp: match_typed_link_def closes_typed_def prefix_def
      split: if_splits option.splits dest!: dots0_lazy_shorter)

text \<open>\<open>re.sub(r"- (.*?) \[\[(.*?)\]\]", r"[[\1:\2]]", text)\<close>.\<close>

function sub_typed_links :: "string \<Rightarrow> string" where
  "sub_typed_links [] = []"
| "sub_typed_links (c # cs) =
     (case match_typed_link (c # cs) of
        Some (g1, g2, rest) \<Rightarrow> ''[['' @ g1 @ '':'' @ g2 @ '']]'' @ sub_typed_links rest
      | None \<Rightarrow> c # sub_typed_links cs)"
  by pat_completeness auto
termination
  by (relation "measure length") (auto dest: match_typed_link_shorter)

text \<open>
  The section pattern \<open>(?:^|\n)%s[^\n]*\n(.*?)(?=\n##?\s|$)\<close> with the configured heading
  in place of \<open>%s\<close>. The heading is put into the pattern as it is, not escaped.
  \<open>regex_literal\<close> holds of a heading that stands for itself there: none of its characters
  has a meaning in a regular expression. The definitions below are for such headings, and
  \<open>transform_typed_links\<close> says nothing of the others. \<open>ends_section\<close> is the lookahead: a
  line that starts with one or two \<open>#\<close> and a whitespace character, or the end of the text, or
  its last line feed.
\<close>

definition regex_literal :: "string \<Rightarrow> bool" where
  "regex_literal heading =
     (\<forall>c \<in> set heading. c \<notin> set ''.^$*+?{}[]|()'' \<and> c \<noteq> CHR 0x5C)"

definition ends_section :: "string \<Rightarrow> bool" where
  "ends_section s =
     ((prefix [nl, CHR ''#''] s \<and>
        ((drop 2 s \<noteq> [] \<and> py_isspace (hd (drop 2 s))) \<or>
         (prefix ''#'' (drop 2 s) \<and> drop 3 s \<noteq> [] \<and> py_isspace (hd (drop 3 s)))))
      \<or> s = [] \<or> s = [nl])"

text \<open>
  The pattern after \<open>(?:^|\n)\<close>, for a heading that is \<open>regex_literal\<close>, tried at the head of
  \<open>s\<close>: the matched text and group 1.
\<close>

definition section_at :: "string \<Rightarrow> string \<Rightarrow> (string \<times> string) option" where
  "section_at heading s =
     (if prefix heading s then
        (let r = drop (length heading) s;
             line = takeWhile (\<lambda>c. c \<noteq> nl) r
         in case dropWhile (\<lambda>c. c \<noteq> nl) r of
              [] \<Rightarrow> None
            | c # body \<Rightarrow>
                (case any_lazy ends_section body of
                   Some (section, rest) \<Rightarrow> Some (heading @ line @ [nl] @ section, section)
                 | None \<Rightarrow> None))
      else None)"

text \<open>
  \<open>re.search\<close>: the first position where the pattern matches, \<open>^\<close> before \<open>\n\<close>; \<open>first\<close>
  says that the position is the start of the text. The result is groups 0 and 1.
\<close>

fun semantic_section :: "string \<Rightarrow> bool \<Rightarrow> string \<Rightarrow> (string \<times> string) option" where
  "semantic_section heading first [] = (if first then section_at heading [] else None)"
| "semantic_section heading first (c # s) =
     (case (if first then section_at heading (c # s) else None) of
        Some m \<Rightarrow> Some m
      | None \<Rightarrow>
          (case (if c = nl then section_at heading s else None) of
             Some (g0, section) \<Rightarrow> Some (nl # g0, section)
           | None \<Rightarrow> semantic_section heading False s))"

text \<open>
  \<open>transform_typed_links\<close> on the content of the file; \<open>semanticsection\<close> is the option
  \<open>args.semanticsection\<close>. The result is \<open>Some\<close> of the content written back. It is \<open>None\<close>
  for a heading that is not \<open>regex_literal\<close>: the code then matches another pattern, or
  raises \<open>re.error\<close>, and the model does not follow it there.
\<close>

definition transform_typed_links :: "string option \<Rightarrow> string \<Rightarrow> string option" where
  "transform_typed_links semanticsection content =
     (case semanticsection of
        Some heading \<Rightarrow>
          if regex_literal heading then
            Some (case semantic_section heading True content of
                    Some (g0, section) \<Rightarrow>
                      py_replace g0 (heading @ [nl] @ sub_typed_links section @ [nl]) content
                  | None \<Rightarrow> content)
          else None
      | None \<Rightarrow> Some (sub_typed_links content))"


section \<open>Header rewriting: \<open>reformat_yaml_front_matter_in_file\<close>\<close>

text \<open>
  The function on the content of the file: \<open>None\<close> when it returns \<open>False\<close> and leaves the
  file alone, the content it writes otherwise. \<open>yaml.safe_dump\<close> with the options of the
  call is the parameter \<open>dump\<close>. \<open>data.items()\<close> exists on a mapping only.
\<close>

definition reformat_yaml_front_matter_in_file ::
  "(string \<Rightarrow> py_error + yaml) \<Rightarrow> ((string \<times> yaml) list \<Rightarrow> string) \<Rightarrow> string
   \<Rightarrow> py_error + string option" where
  "reformat_yaml_front_matter_in_file load dump content =
     (case parse_yaml_front_matter load content of
        Inl e \<Rightarrow> Inl e
      | Inr (data, body) \<Rightarrow>
          if data = YMap [] \<and> body = content then Inr None
          else (case data of
                  YMap kvs \<Rightarrow>
                    Inr (Some (''---'' @ [nl] @ py_rstrip (dump (normalize_header kvs))
                               @ [nl] @ ''---'' @ [nl] @ py_lstrip body))
                | _ \<Rightarrow> Inl AttributeError))"

section \<open>Identity Assigner: \<open>metadata_init\<close>\<close>

text \<open>The decimal digits of a natural number, as \<open>str.format\<close> prints an \<open>int\<close>.\<close>

function dec :: "nat \<Rightarrow> string" where
  "dec n = (if n < 10 then [char_of (48 + n)] else dec (n div 10) @ [char_of (48 + n mod 10)])"
  by pat_completeness auto
termination
  by (relation "measure id") auto

declare dec.simps [simp del]

text \<open>
  \<open>create_id\<close>: with \<open>args.creationdate\<close> the formatted creation date of the file, which the
  parameter \<open>birth\<close> gives, a \<open>str\<close>; otherwise the incremented global counter, an \<open>int\<close>.
  The result is the new counter, the identifier as a value and as \<open>format\<close> prints it.
\<close>

definition create_id ::
  "bool \<Rightarrow> (string \<Rightarrow> string) \<Rightarrow> nat \<Rightarrow> string \<Rightarrow> nat \<times> yaml \<times> string" where
  "create_id creationdate birth currentId file =
     (if creationdate then (currentId, YStr (birth file), birth file)
      else (currentId + 1, YOther (dec (currentId + 1)), dec (currentId + 1)))"

text \<open>\<open>s.replace(old, new, 1)\<close>: the first occurrence only.\<close>

fun py_replace_first :: "string \<Rightarrow> string \<Rightarrow> string \<Rightarrow> string" where
  "py_replace_first old new [] = (if old = [] then new else [])"
| "py_replace_first old new (c # s) =
     (if prefix old (c # s) then new @ drop (length old) (c # s)
      else c # py_replace_first old new s)"

text \<open>
  \<open>re.match(r"^---\n(.*?)\n---(.*)", content, re.DOTALL)\<close> as a truth value, and the
  insertion of a field that follows it: into the header when the pattern matches, as a new
  header block before the content otherwise.
\<close>

definition header_found :: "string \<Rightarrow> bool" where
  "header_found content =
     (prefix (''---'' @ [nl]) content \<and> is_substring (nl # ''---'') (drop 4 content))"

definition insert_field :: "string \<Rightarrow> string \<Rightarrow> string \<Rightarrow> string" where
  "insert_field key val content =
     (if header_found content
      then py_replace_first ''---'' (''---'' @ [nl] @ key @ '': '' @ val) content
      else ''---'' @ [nl] @ key @ '': '' @ val @ [nl] @ ''---'' @ [nl] @ content)"

text \<open>\<open>Path(file).stem\<close>: the last component of the path without its last suffix.\<close>

definition basename :: "string \<Rightarrow> string" where
  "basename path = rev (takeWhile (\<lambda>c. c \<noteq> CHR ''/'') (rev path))"

definition stem :: "string \<Rightarrow> string" where
  "stem path =
     (let name = basename path;
          ext = rev (takeWhile (\<lambda>c. c \<noteq> CHR ''.'') (rev name))
      in if CHR ''.'' \<in> set name \<and> ext \<noteq> [] \<and> length ext + 1 < length name
         then take (length name - length ext - 1) name else name)"

text \<open>
  The state of \<open>metadata_init\<close>: the files on disk, the global counter, and the
  assignments \<open>title2id[title] = id\<close> made so far, in order. The CSV file it writes at the end
  is left out.
\<close>

record init_state =
  files :: "string \<rightharpoonup> string"
  currentId :: nat
  title2id :: "(yaml \<times> yaml) list"

definition init_file ::
  "(string \<Rightarrow> py_error + yaml) \<Rightarrow> bool \<Rightarrow> (string \<Rightarrow> string) \<Rightarrow> init_state \<Rightarrow> string
   \<Rightarrow> py_error + init_state" where
  "init_file load creationdate birth st file =
     (case read_file (files st) file of
        Inl e \<Rightarrow> Inl e
      | Inr content \<Rightarrow>
     (case parse_yaml_front_matter load content of
        Inl e \<Rightarrow> Inl e
      | Inr (front_matter, body) \<Rightarrow>
     (case yaml_get front_matter ''id'' YNull of
        Inl e \<Rightarrow> Inl e
      | Inr id0 \<Rightarrow>
     (case yaml_get front_matter ''title'' YNull of
        Inl e \<Rightarrow> Inl e
      | Inr title0 \<Rightarrow>
          let (counter, ident, printed) = create_id creationdate birth (currentId st) file;
              st1 = (if id0 = YNull
                     then st\<lparr>files := (files st)(file \<mapsto> insert_field ''id'' printed content),
                             currentId := counter\<rparr>
                     else st);
              id1 = (if id0 = YNull then ident else id0)
          in (case (if title0 = YNull then read_file (files st1) file else Inr content) of
                Inl e \<Rightarrow> Inl e
              | Inr content1 \<Rightarrow>
                  let st2 = (if title0 = YNull
                             then st1\<lparr>files := (files st1)(file \<mapsto>
                                       insert_field ''title'' (stem file) content1)\<rparr>
                             else st1);
                      title1 = (if title0 = YNull then YStr (stem file) else title0)
                  in if hashable title1
                     then Inr (st2\<lparr>title2id := title2id st2 @ [(title1, id1)]\<rparr>)
                     else Inl TypeError)))))"

fun metadata_init ::
  "(string \<Rightarrow> py_error + yaml) \<Rightarrow> bool \<Rightarrow> (string \<Rightarrow> string) \<Rightarrow> init_state \<Rightarrow> string list
   \<Rightarrow> py_error + init_state" where
  "metadata_init load creationdate birth st [] = Inr st"
| "metadata_init load creationdate birth st (file # fs) =
     (case init_file load creationdate birth st file of
        Inl e \<Rightarrow> Inl e
      | Inr st' \<Rightarrow> metadata_init load creationdate birth st' fs)"


section \<open>Properties of the Typed-Link Recoder, the Header Codec and the Identity Assigner\<close>

text \<open>
  C9. The claim: in scoped mode, when the heading is found, all text outside the span from
  the heading to the next heading is byte-identical in the output. The matched text starts
  with the line feed before the heading, and the text put in its place starts with the
  heading: the line feed is lost and the heading is joined to the line before it.
\<close>

theorem transform_typed_links_joins_heading:
  "transform_typed_links (Some ''## Typed links'')
     ''intro\<newline>## Typed links\<newline>- causes [[Fire]]\<newline>## Next\<newline>foo''
   = Some ''intro## Typed links\<newline>[[causes:Fire]]\<newline>\<newline>## Next\<newline>foo''"
  by code_simp


text \<open>
  The answers of \<open>yaml.safe_load\<close> on the two header texts of the run below.
\<close>

definition load0 :: "string \<Rightarrow> py_error + yaml" where
  "load0 s =
     (if s = ''title: x'' then Inr (YMap [(''title'', YStr ''x'')])
      else if s = ''id: 1'' then Inr (YMap [(''id'', YOther ''1'')])
      else Inl YAMLError)"

text \<open>
  C2. The claim: after \<open>metadata_init\<close> every processed document has both \<open>id\<close> and
  \<open>title\<close> in its header. A document whose opening line is \<open>---\<close> followed by a space has a
  header for \<open>parse_yaml_front_matter\<close>, with a title and no id, but none for the pattern
  that guards the insertion: the id is written as a new header block before the document,
  and the header decoded from the result holds \<open>id\<close> alone.
\<close>

theorem metadata_init_loses_title:
  "(case metadata_init load0 False (\<lambda>f. [])
          \<lparr>files = [''out/note.md'' \<mapsto> ''--- \<newline>title: x\<newline>---\<newline>body''], currentId = 0, title2id = []\<rparr>
          [''out/note.md''] of
      Inl e \<Rightarrow> False
    | Inr st \<Rightarrow>
        files st ''out/note.md'' = Some ''---\<newline>id: 1\<newline>---\<newline>--- \<newline>title: x\<newline>---\<newline>body''
        \<and> title2id st = [(YStr ''x'', YOther ''1'')])
   \<and> parse_yaml_front_matter load0 ''---\<newline>id: 1\<newline>---\<newline>--- \<newline>title: x\<newline>---\<newline>body''
        = Inr (YMap [(''id'', YOther ''1'')], ''--- \<newline>title: x\<newline>---\<newline>body'')"
  by code_simp

lemma rev_neq: "rev a \<noteq> rev b \<Longrightarrow> a \<noteq> b"
  by auto


text \<open>
  C3. The claim: writing back the decoded header and body reproduces every text with a
  well-formed header block and no trailing-whitespace anomaly. The written text always ends
  the closing delimiter with a line feed, so a text that ends with the closing \<open>---\<close> is not
  reproduced, whatever the YAML library returns.
\<close>

theorem reformat_adds_line_feed:
  "\<forall>load dump. reformat_yaml_front_matter_in_file load dump ''---\<newline>a: b\<newline>---''
      \<noteq> Inr (Some ''---\<newline>a: b\<newline>---'')"
proof (intro allI)
  fix load :: "string \<Rightarrow> py_error + yaml" and dump :: "(string \<times> yaml) list \<Rightarrow> string"
  have m: "front_matter_match ''---\<newline>a: b\<newline>---'' = Some (''a: b'', [])"
    by code_simp
  have ne: "''---'' @ [nl] @ X @ [nl] @ ''---'' @ [nl] @ [] \<noteq> ''---\<newline>a: b\<newline>---''" for X
    by (rule rev_neq) (simp add: nl_def)
  show "reformat_yaml_front_matter_in_file load dump ''---\<newline>a: b\<newline>---''
      \<noteq> Inr (Some ''---\<newline>a: b\<newline>---'')"
    using ne
    by (auto simp: reformat_yaml_front_matter_in_file_def parse_yaml_front_matter_def m
        py_lstrip_def split: sum.splits yaml.splits if_splits)
qed

lemma split_at_first_exact:
  "\<not> is_substring (nl # ''---'') fm \<Longrightarrow>
   split_at_first (nl # ''---'') (fm @ nl # ''---'' @ rest) = Some (fm, rest)"
proof (induction fm)
  case Nil
  then show ?case by simp
next
  case (Cons c fm)
  have n: "\<not> prefix (nl # ''---'') (c # fm)" and i: "\<not> is_substring (nl # ''---'') fm"
    using Cons.prems by auto
  define tail where "tail = nl # ''---'' @ rest"
  have "\<not> prefix (nl # ''---'') ((c # fm) @ tail)"
  proof
    assume p: "prefix (nl # ''---'') ((c # fm) @ tail)"
    then have "prefix (c # fm) (nl # ''---'')"
      unfolding prefix_append using n by (auto simp: prefix_def)
    then obtain zs where zs: "nl # ''---'' = (c # fm) @ zs" by (auto simp: prefix_def)
    with n have "zs \<noteq> []" by auto
    from p have "prefix ((c # fm) @ zs) ((c # fm) @ tail)" by (simp only: zs)
    then have "prefix zs tail" by (simp only: same_prefix_prefix)
    with \<open>zs \<noteq> []\<close> have "hd zs = nl" by (cases zs) (auto simp: tail_def)
    moreover have "hd zs = CHR ''-''"
      using zs \<open>zs \<noteq> []\<close>
      by (cases fm; cases "tl fm"; cases "tl (tl fm)"; cases zs) (auto simp: nl_def)
    ultimately show False by (simp add: nl_def)
  qed
  then have "\<not> prefix (nl # ''---'') (c # fm @ nl # ''---'' @ rest)"
    by (simp add: tail_def)
  then show ?case using Cons.IH[OF i] by simp
qed


text \<open>
  C3, as amended. A text \<open>---\<close>, header, \<open>---\<close>, body, each delimiter on a line of its own ended
  by one line feed, is reproduced byte-identically when the header is non-empty, does not
  start with whitespace and has no line starting with \<open>---\<close>, the body does not start with
  whitespace, the header decodes to a mapping, and the header text is what the serializer
  prints, right-stripped, for the normalized header.
\<close>

theorem reformat_round_trip:
  assumes "fm \<noteq> []" "\<not> py_isspace (hd fm)" "\<not> is_substring (nl # ''---'') fm"
    and "body = [] \<or> \<not> py_isspace (hd body)"
    and "load fm = Inr (YMap kvs)"
    and "py_rstrip (dump (normalize_header kvs)) = fm"
  shows "reformat_yaml_front_matter_in_file load dump
           (''---'' @ [nl] @ fm @ [nl] @ ''---'' @ [nl] @ body)
         = Inr (Some (''---'' @ [nl] @ fm @ [nl] @ ''---'' @ [nl] @ body))"
proof -
  define content where "content = ''---'' @ [nl] @ fm @ [nl] @ ''---'' @ [nl] @ body"
  have sp: "py_isspace nl" by (simp add: py_isspace_def nl_def)
  have "open_delim (fm @ nl # ''---'' @ nl # body) = None"
    using assms(1,2) by (cases fm) auto
  then have "open_delim (nl # fm @ nl # ''---'' @ nl # body) = Some (fm, nl # body)"
    using split_at_first_exact[OF assms(3), of "nl # body"] sp by simp
  moreover have "dropWhile py_isspace (nl # body) = body"
    using assms(4) sp by (cases body) auto
  ultimately have "front_matter_match content = Some (fm, body)"
    by (simp add: front_matter_match_def content_def)
  then have p: "parse_yaml_front_matter load content = Inr (YMap kvs, body)"
    using assms(5) by (simp add: parse_yaml_front_matter_def)
  have "length body < length content" by (simp add: content_def)
  then have ne: "body \<noteq> content" by auto
  have "py_lstrip body = body" using assms(4) by (cases body) (auto simp: py_lstrip_def)
  then have "reformat_yaml_front_matter_in_file load dump content = Inr (Some content)"
    using p ne assms(6) by (simp add: reformat_yaml_front_matter_in_file_def content_def)
  then show ?thesis by (simp add: content_def)
qed


theorem reformat_round_trip_witness:
  "reformat_yaml_front_matter_in_file
     (\<lambda>s. Inr (YMap [(''title'', YStr ''x'')])) (\<lambda>d. ''title: \"x\"'' @ [nl])
     (''---'' @ [nl] @ ''title: \"x\"'' @ [nl] @ ''---'' @ [nl] @ ''body'')
   = Inr (Some (''---'' @ [nl] @ ''title: \"x\"'' @ [nl] @ ''---'' @ [nl] @ ''body''))"
  by (rule reformat_round_trip) (simp_all add: py_isspace_def nl_def py_rstrip_def)

end
